theory Spec2Isabelle
  imports Main
begin

section \<open>Position codec of pages/index.tsx\<close>

text \<open>
  JavaScript strings are modelled as \<open>string\<close> (lists of characters). The editor object
  \<open>PosObj = Record<string,string>\<close> is a map from square names to piece codes. The
  TypeScript union \<open>'w'|'b'\<close> is a datatype; \<open>turn_str\<close> gives the letter that a
  template string writes for it.
\<close>

type_synonym PosObj = "string \<rightharpoonup> string"

datatype color = W | B

fun turn_str :: "color \<Rightarrow> string" where
  "turn_str W = ''w''"
| "turn_str B = ''b''"

record castling =
  castle_K :: bool
  castle_Q :: bool
  castle_k :: bool
  castle_q :: bool

record fen_result =
  fen :: "string option"
  error :: "string option"

record decoded =
  r_pos :: PosObj
  r_turn :: color
  r_castle :: castling

datatype decode_error = BadSymbol

definition FILES :: "char list" where
  "FILES = ''abcdefgh''"

text \<open>\<open>FILES.indexOf(f)\<close>: the index of the first occurrence, \<open>-1\<close> when absent.\<close>

fun indexOf :: "char list \<Rightarrow> char \<Rightarrow> int" where
  "indexOf [] c = -1"
| "indexOf (x # xs) c = (if x = c then 0 else (let i = indexOf xs c in if i < 0 then -1 else i + 1))"

definition fileIndex :: "char \<Rightarrow> int" where
  "fileIndex f = indexOf FILES f"

text \<open>Decimal rendering of numbers inside template strings and \<open>String(n)\<close>.\<close>

definition digit_char :: "nat \<Rightarrow> char" where
  "digit_char n = ''0123456789'' ! n"

fun show_nat :: "nat \<Rightarrow> string" where
  "show_nat n = (if n < 10 then [digit_char n] else show_nat (n div 10) @ [digit_char (n mod 10)])"

declare show_nat.simps [simp del]

definition show_int :: "int \<Rightarrow> string" where
  "show_int i = (if i < 0 then CHR ''-'' # show_nat (nat (- i)) else show_nat (nat i))"

text \<open>
  \<open>`${FILES[file]}${rank}`\<close>: an index outside the array reads \<open>undefined\<close>, which the
  template renders as the word.
\<close>

definition file_str :: "nat \<Rightarrow> string" where
  "file_str f = (if f < 8 then [FILES ! f] else ''undefined'')"

definition square :: "nat \<Rightarrow> int \<Rightarrow> string" where
  "square f r = file_str f @ show_int r"

text \<open>JavaScript truthiness of \<open>obj[sq]\<close>: \<open>undefined\<close> and the empty string are falsy.\<close>

fun truthy :: "string option \<Rightarrow> bool" where
  "truthy None = False"
| "truthy (Some s) = (s \<noteq> [])"

text \<open>
  \<open>sym.toUpperCase()\<close> on one character. Only the letters a to z are mapped: no other
  character has one of K, Q, R, B, N, P as its upper case.
\<close>

definition toUpperCase :: "char \<Rightarrow> char" where
  "toUpperCase c = (let n = (of_char c :: nat) in if 97 \<le> n \<and> n \<le> 122 then char_of (n - 32) else c)"

definition symbolToPiece :: "char \<Rightarrow> decode_error + string" where
  "symbolToPiece sy =
     (let white = (sy = toUpperCase sy);
          t = toUpperCase sy
      in if t \<in> set ''KQRBNP'' then Inr ((if white then ''w'' else ''b'') @ [t])
         else Inl BadSymbol)"

text \<open>
  \<open>pieceToSymbol\<close> reads \<open>map[p]\<close> on an object literal with the twelve piece codes. For one
  of the codes the value is the placement letter. For a name that every object inherits
  from \<open>Object.prototype\<close> (\<open>constructor\<close>, \<open>toString\<close>, \<open>__proto__\<close>, ...) the value is a
  function or an object: it is truthy, equal to no letter, and \<open>placement += sym\<close> appends
  its text. Which names are inherited and what their text is belongs to the JavaScript
  engine, so it is the parameter \<open>inherited\<close>: \<open>inherited p\<close> is the text for an inherited
  name \<open>p\<close> and \<open>None\<close> for every other string. Any other key gives \<open>undefined\<close>.
\<close>

datatype looked_up = Undefined | Sym char | Inherited string

definition pieceToSymbol :: "(string \<Rightarrow> string option) \<Rightarrow> string \<Rightarrow> looked_up" where
  "pieceToSymbol inherited p =
     (case map_of
        [(''wK'', CHR ''K''), (''wQ'', CHR ''Q''), (''wR'', CHR ''R''),
         (''wB'', CHR ''B''), (''wN'', CHR ''N''), (''wP'', CHR ''P''),
         (''bK'', CHR ''k''), (''bQ'', CHR ''q''), (''bR'', CHR ''r''),
         (''bB'', CHR ''b''), (''bN'', CHR ''n''), (''bP'', CHR ''p'')] p of
        Some sy \<Rightarrow> Sym sy
      | None \<Rightarrow> (case inherited p of Some txt \<Rightarrow> Inherited txt | None \<Rightarrow> Undefined))"

text \<open>The inherited names and their texts in V8 (Chrome, Node.js).\<close>

definition v8_inherited :: "string \<Rightarrow> string option" where
  "v8_inherited = map_of
     [(''constructor'', ''function Object() { [native code] }''),
      (''__defineGetter__'', ''function __defineGetter__() { [native code] }''),
      (''__defineSetter__'', ''function __defineSetter__() { [native code] }''),
      (''hasOwnProperty'', ''function hasOwnProperty() { [native code] }''),
      (''__lookupGetter__'', ''function __lookupGetter__() { [native code] }''),
      (''__lookupSetter__'', ''function __lookupSetter__() { [native code] }''),
      (''isPrototypeOf'', ''function isPrototypeOf() { [native code] }''),
      (''propertyIsEnumerable'', ''function propertyIsEnumerable() { [native code] }''),
      (''toString'', ''function toString() { [native code] }''),
      (''valueOf'', ''function valueOf() { [native code] }''),
      (''__proto__'', ''[object Object]''),
      (''toLocaleString'', ''function toLocaleString() { [native code] }'')]"

subsection \<open>autoDetectEnPassant\<close>

text \<open>
  One loop per side to move over \<open>FILES\<close>; each \<open>continue\<close> is a branch that goes on
  with the candidates unchanged.
\<close>

fun ep_loop :: "PosObj \<Rightarrow> char \<Rightarrow> char \<Rightarrow> string \<Rightarrow> string \<Rightarrow> char list \<Rightarrow> string list \<Rightarrow> string list" where
  "ep_loop obj capRank epRank enemy friend [] cands = cands"
| "ep_loop obj capRank epRank enemy friend (f # fs) cands =
     (let sq = [f, capRank] in
      if obj sq \<noteq> Some enemy then ep_loop obj capRank epRank enemy friend fs cands
      else
        let idx = fileIndex f;
            ep = [f, epRank] in
        if truthy (obj ep) then ep_loop obj capRank epRank enemy friend fs cands
        else
          let left = (if idx > 0 then [FILES ! nat (idx - 1), capRank] else []);
              right = (if idx < 7 then [FILES ! nat (idx + 1), capRank] else []) in
          if (left \<noteq> [] \<and> obj left = Some friend) \<or> (right \<noteq> [] \<and> obj right = Some friend)
          then ep_loop obj capRank epRank enemy friend fs (cands @ [ep])
          else ep_loop obj capRank epRank enemy friend fs cands)"

definition autoDetectEnPassant :: "PosObj \<Rightarrow> color \<Rightarrow> string" where
  "autoDetectEnPassant obj t =
     (let cands = (case t of
                     W \<Rightarrow> ep_loop obj (CHR ''5'') (CHR ''6'') ''bP'' ''wP'' FILES []
                   | B \<Rightarrow> ep_loop obj (CHR ''4'') (CHR ''3'') ''wP'' ''bP'' FILES [])
      in if length cands = 1 then cands ! 0 else ''-'')"

subsection \<open>posObjToFen\<close>

definition pawn_rank_error :: "nat \<Rightarrow> fen_result" where
  "pawn_rank_error r =
     \<lparr>fen = None, error = Some (''Pawns cannot be on rank '' @ show_nat r @ ''. Promote them.'')\<rparr>"

definition unknown_piece_error :: "string \<Rightarrow> fen_result" where
  "unknown_piece_error p = \<lparr>fen = None, error = Some (''Unknown piece: '' @ p)\<rparr>"

definition king_count_error :: "nat \<Rightarrow> nat \<Rightarrow> fen_result" where
  "king_count_error wK bK =
     \<lparr>fen = None,
      error = Some (''Place exactly one king per side (found W:'' @ show_nat wK @ '', B:'' @
                    show_nat bK @ '').'')\<rparr>"

text \<open>
  The inner loop \<open>for (let f = 0; f < 8; f++)\<close> of rank \<open>r\<close>, on the loop variables
  \<open>(placement, empty, wK, bK)\<close>, where \<open>empty\<close> is written \<open>empties\<close>. An early
  \<open>return\<close> is \<open>Inl\<close> of the returned object.
\<close>

function scan_files :: "(string \<Rightarrow> string option) \<Rightarrow> PosObj \<Rightarrow> nat \<Rightarrow> nat
    \<Rightarrow> string \<times> nat \<times> nat \<times> nat \<Rightarrow> fen_result + string \<times> nat \<times> nat \<times> nat" where
  "scan_files inherited obj r f (placement, empties, wK, bK) =
     (if f < 8 then
        (case obj (square f (int r)) of
           None \<Rightarrow> scan_files inherited obj r (f + 1) (placement, empties + 1, wK, bK)
         | Some p \<Rightarrow>
             if p = [] then scan_files inherited obj r (f + 1) (placement, empties + 1, wK, bK)
             else
               let placement1 = (if empties \<noteq> 0 then placement @ show_nat empties else placement) in
               if (r = 1 \<or> r = 8) \<and> (p = ''wP'' \<or> p = ''bP'') then Inl (pawn_rank_error r)
               else
                 (case pieceToSymbol inherited p of
                    Undefined \<Rightarrow> Inl (unknown_piece_error p)
                  | Sym sy \<Rightarrow>
                      scan_files inherited obj r (f + 1)
                        (placement1 @ [sy], 0,
                         (if sy = CHR ''K'' then wK + 1 else wK),
                         (if sy = CHR ''k'' then bK + 1 else bK))
                  | Inherited txt \<Rightarrow>
                      scan_files inherited obj r (f + 1) (placement1 @ txt, 0, wK, bK)))
      else Inr (placement, empties, wK, bK))"
  by pat_completeness auto
termination
  by (relation "measure (\<lambda>(inherited, obj, r, f, st). 8 - f)") auto

declare scan_files.simps [simp del]

text \<open>The outer loop \<open>for (let r = 8; r >= 1; r--)\<close>, started at \<open>8\<close>.\<close>

function scan_ranks :: "(string \<Rightarrow> string option) \<Rightarrow> PosObj \<Rightarrow> nat \<Rightarrow> string \<times> nat \<times> nat
    \<Rightarrow> fen_result + string \<times> nat \<times> nat" where
  "scan_ranks inherited obj r (placement, wK, bK) =
     (if r \<ge> 1 then
        (case scan_files inherited obj r 0 (placement, 0, wK, bK) of
           Inl e \<Rightarrow> Inl e
         | Inr (placement1, empties, wK1, bK1) \<Rightarrow>
             let placement2 = (if empties \<noteq> 0 then placement1 @ show_nat empties else placement1);
                 placement3 = (if r \<noteq> 1 then placement2 @ ''/'' else placement2)
             in scan_ranks inherited obj (r - 1) (placement3, wK1, bK1))
      else Inr (placement, wK, bK))"
  by pat_completeness auto
termination
  by (relation "measure (\<lambda>(inherited, obj, r, st). r)") auto

declare scan_ranks.simps [simp del]

definition castle_field :: "castling \<Rightarrow> string" where
  "castle_field castlingFlags =
     (let c = (if castle_K castlingFlags then ''K'' else []) @
              (if castle_Q castlingFlags then ''Q'' else []) @
              (if castle_k castlingFlags then ''k'' else []) @
              (if castle_q castlingFlags then ''q'' else [])
      in if c = [] then ''-'' else c)"

definition posObjToFen :: "(string \<Rightarrow> string option) \<Rightarrow> PosObj \<Rightarrow> color \<Rightarrow> castling
    \<Rightarrow> fen_result" where
  "posObjToFen inherited obj t castlingFlags =
     (case scan_ranks inherited obj 8 ([], 0, 0) of
        Inl e \<Rightarrow> e
      | Inr (placement, wK, bK) \<Rightarrow>
          if wK \<noteq> 1 \<or> bK \<noteq> 1 then king_count_error wK bK
          else
            let castle = castle_field castlingFlags;
                ep = autoDetectEnPassant obj t
            in \<lparr>fen = Some (placement @ '' '' @ turn_str t @ '' '' @ castle @ '' '' @ ep @ '' 0 1''),
                error = None\<rparr>)"

subsection \<open>fenToPosObj\<close>

text \<open>\<open>s.split(c)\<close> for a one-character separator: the empty string splits into \<open>[""]\<close>.\<close>

fun js_split :: "char \<Rightarrow> string \<Rightarrow> string list" where
  "js_split c [] = [[]]"
| "js_split c (x # xs) =
     (if x = c then [] # js_split c xs
      else (case js_split c xs of
              [] \<Rightarrow> [[x]]
            | w # ws \<Rightarrow> (x # w) # ws))"

text \<open>Array destructuring: a missing element is \<open>undefined\<close>.\<close>

definition field :: "string list \<Rightarrow> nat \<Rightarrow> string option" where
  "field xs i = (if i < length xs then Some (xs ! i) else None)"

definition is_digit :: "char \<Rightarrow> bool" where
  "is_digit ch = (ch \<in> set ''0123456789'')"

definition parseInt :: "char \<Rightarrow> nat" where
  "parseInt ch = of_char ch - 48"

text \<open>The loop \<open>for (const ch of placement)\<close> on the variables \<open>(pos, rank, file)\<close>.\<close>

fun placement_loop :: "string \<Rightarrow> PosObj \<times> int \<times> nat \<Rightarrow> decode_error + PosObj" where
  "placement_loop [] (pos, rank, file) = Inr pos"
| "placement_loop (ch # cs) (pos, rank, file) =
     (if ch = CHR ''/'' then placement_loop cs (pos, rank - 1, 0)
      else if is_digit ch then placement_loop cs (pos, rank, file + parseInt ch)
      else
        let sq = square file rank in
        (case symbolToPiece ch of
           Inl e \<Rightarrow> Inl e
         | Inr p \<Rightarrow> placement_loop cs (pos(sq \<mapsto> p), rank, file + 1)))"

definition str_includes :: "string option \<Rightarrow> char \<Rightarrow> bool" where
  "str_includes castle_f c = (case castle_f of None \<Rightarrow> False | Some s \<Rightarrow> c \<in> set s)"

definition fenToPosObj :: "string \<Rightarrow> decode_error + decoded" where
  "fenToPosObj fen_str =
     (let fields = js_split (CHR '' '') fen_str;
          placement = (case fields of [] \<Rightarrow> [] | x # _ \<Rightarrow> x);
          turn_f = field fields 1;
          castle_f = field fields 2
      in case placement_loop placement (Map.empty, 8, 0) of
           Inl e \<Rightarrow> Inl e
         | Inr pos \<Rightarrow>
             Inr \<lparr>r_pos = pos,
                  r_turn = (if turn_f = Some ''b'' then B else W),
                  r_castle = \<lparr>castle_K = str_includes castle_f (CHR ''K''),
                            castle_Q = str_includes castle_f (CHR ''Q''),
                            castle_k = str_includes castle_f (CHR ''k''),
                            castle_q = str_includes castle_f (CHR ''q'')\<rparr>\<rparr>)"

section \<open>Editor positions and the notions of the specification\<close>

text \<open>The palette of components/PiecePalette.tsx: the twelve piece codes an editor stores.\<close>

definition pieces :: "string list" where
  "pieces = [''wK'',''wQ'',''wR'',''wB'',''wN'',''wP'',''bK'',''bQ'',''bR'',''bB'',''bN'',''bP'']"

text \<open>The 64 square names, in the order \<open>posObjToFen\<close> visits them.\<close>

definition all_squares :: "string list" where
  "all_squares = concat (map (\<lambda>r. map (\<lambda>f. square f (int r)) [0..<8]) (rev [1..<9]))"

text \<open>An editor-form position: keys are squares of the board, values are palette codes.\<close>

definition editor_position :: "PosObj \<Rightarrow> bool" where
  "editor_position obj = (\<forall>sq p. obj sq = Some p \<longrightarrow> sq \<in> set all_squares \<and> p \<in> set pieces)"

definition count_piece :: "PosObj \<Rightarrow> string \<Rightarrow> nat" where
  "count_piece obj q = length (filter (\<lambda>sq. obj sq = Some q) all_squares)"

definition is_pawn :: "string option \<Rightarrow> bool" where
  "is_pawn p = (p = Some ''wP'' \<or> p = Some ''bP'')"

definition pawn_on_rank :: "PosObj \<Rightarrow> nat \<Rightarrow> bool" where
  "pawn_on_rank obj r = (\<exists>f \<in> set [0..<8]. is_pawn (obj (square f (int r))))"

text \<open>The rights that are set, as letters in the order K, Q, k, q.\<close>

definition rights_letters :: "castling \<Rightarrow> string" where
  "rights_letters c =
     map fst (filter snd [(CHR ''K'', castle_K c), (CHR ''Q'', castle_Q c),
                          (CHR ''k'', castle_k c), (CHR ''q'', castle_q c)])"

text \<open>The characters \<open>fenToPosObj\<close> accepts in the placement field.\<close>

definition placement_char :: "char \<Rightarrow> bool" where
  "placement_char ch = (ch = CHR ''/'' \<or> is_digit ch \<or> toUpperCase ch \<in> set ''KQRBNP'')"

subsection \<open>Auxiliary notions for the loop invariants\<close>

text \<open>
  The keys of rank \<open>r\<close> from file \<open>f\<close> on, the pieces of a rank being palette codes, the
  number of pieces \<open>q\<close> on the rest of a rank, and the digits written for a pending run of
  empty squares.
\<close>

definition rank_keys :: "nat \<Rightarrow> nat \<Rightarrow> string set" where
  "rank_keys r f = {square f' (int r) | f'. f \<le> f' \<and> f' < 8}"

definition valid_row :: "PosObj \<Rightarrow> nat \<Rightarrow> bool" where
  "valid_row obj r = (\<forall>f<8. \<forall>p. obj (square f (int r)) = Some p \<longrightarrow> p \<in> set pieces)"

definition count_row :: "PosObj \<Rightarrow> string \<Rightarrow> nat \<Rightarrow> nat \<Rightarrow> nat" where
  "count_row obj q r f = length (filter (\<lambda>f'. obj (square f' (int r)) = Some q) [f..<8])"

definition flush :: "nat \<Rightarrow> string" where
  "flush e = (if e \<noteq> 0 then show_nat e else [])"

definition keys_upto :: "nat \<Rightarrow> string set" where
  "keys_upto r = (\<Union>r' \<in> {1..r}. rank_keys r' 0)"

definition count_upto :: "PosObj \<Rightarrow> string \<Rightarrow> nat \<Rightarrow> nat" where
  "count_upto obj q r = sum_list (map (\<lambda>r'. count_row obj q r' 0) (rev [1..<Suc r]))"

subsection \<open>En-passant candidates as the specification words them\<close>

text \<open>
  File \<open>i\<close> is a candidate when an enemy pawn stands on the capture rank (5 for white to
  move, 4 for black), the square ahead of it (rank 6, resp. 3) is empty, and a friendly pawn
  stands on a neighbouring file of the capture rank.
\<close>

definition ep_candidate :: "PosObj \<Rightarrow> color \<Rightarrow> nat \<Rightarrow> bool" where
  "ep_candidate obj t i =
     (case t of
        W \<Rightarrow> obj (square i 5) = Some ''bP'' \<and> obj (square i 6) = None \<and>
             ((0 < i \<and> obj (square (i - 1) 5) = Some ''wP'') \<or>
              (i < 7 \<and> obj (square (i + 1) 5) = Some ''wP''))
      | B \<Rightarrow> obj (square i 4) = Some ''wP'' \<and> obj (square i 3) = None \<and>
             ((0 < i \<and> obj (square (i - 1) 4) = Some ''bP'') \<or>
              (i < 7 \<and> obj (square (i + 1) 4) = Some ''bP'')))"

definition ep_targets :: "PosObj \<Rightarrow> color \<Rightarrow> string list" where
  "ep_targets obj t =
     map (\<lambda>i. square i (case t of W \<Rightarrow> 6 | B \<Rightarrow> 3)) (filter (ep_candidate obj t) [0..<8])"

subsection \<open>Concrete positions\<close>

text \<open>White king d1, black king d8 and nothing else; no castling rights.\<close>

definition kings_only :: PosObj where
  "kings_only = [''d1'' \<mapsto> ''wK'', ''d8'' \<mapsto> ''bK'']"

definition no_rights :: castling where
  "no_rights = \<lparr>castle_K = False, castle_Q = False, castle_k = False, castle_q = False\<rparr>"

text \<open>Black pawn e5 between white pawns d5 and f5; the same with a second black pawn on c5.\<close>

definition ep_single :: PosObj where
  "ep_single = kings_only(''e5'' \<mapsto> ''bP'', ''d5'' \<mapsto> ''wP'', ''f5'' \<mapsto> ''wP'')"

definition ep_double :: PosObj where
  "ep_double = ep_single(''c5'' \<mapsto> ''bP'')"

text \<open>A pawn on a8, and a second white king on a7.\<close>

definition pawn_a8 :: PosObj where
  "pawn_a8 = kings_only(''a8'' \<mapsto> ''wP'')"

definition two_white_kings :: PosObj where
  "two_white_kings = kings_only(''a7'' \<mapsto> ''wK'')"

section \<open>The rule oracle (chess.js) as a parameter\<close>

text \<open>
  chess.js is an external library. Its \<open>Chess\<close> object is a handle of type \<open>'h\<close>, a move
  object is a value of type \<open>'m\<close>, and the methods the repository calls are the fields of a
  record: \<open>new Chess(fen)\<close> (\<open>None\<close> when the constructor throws), \<open>chess.moves({verbose:
  true})\<close>, \<open>chess.move(m)\<close> (\<open>None\<close> when it throws), \<open>chess.undo()\<close>, \<open>chess.board()\<close> and
  \<open>chess.turn()\<close>. Mutation of the object is the passing on of the new handle.
\<close>

datatype piece_type = Pawn | Knight | Bishop | Rook | Queen | King

record cell =
  cell_type :: piece_type
  cell_color :: color

record ('h, 'm) chess_js =
  chess_load :: "string \<Rightarrow> 'h option"
  chess_moves :: "'h \<Rightarrow> 'm list"
  chess_move :: "'h \<Rightarrow> 'm \<Rightarrow> 'h option"
  chess_undo :: "'h \<Rightarrow> 'h"
  chess_board :: "'h \<Rightarrow> cell option list list"
  chess_turn :: "'h \<Rightarrow> color"

section \<open>The bot (src/unnamed/part_002, imported as lib/bot)\<close>

text \<open>\<open>VAL\<close>, indexed by the piece letters p, n, b, r, q, k.\<close>

fun VAL :: "piece_type \<Rightarrow> int" where
  "VAL Pawn = 100"
| "VAL Knight = 320"
| "VAL Bishop = 330"
| "VAL Rook = 500"
| "VAL Queen = 900"
| "VAL King = 0"

fun score_row :: "cell option list \<Rightarrow> int \<Rightarrow> int" where
  "score_row [] score = score"
| "score_row (None # cells) score = score_row cells score"
| "score_row (Some c # cells) score =
     (let s = VAL (cell_type c)
      in score_row cells (score + (if cell_color c = W then s else - s)))"

fun score_rows :: "cell option list list \<Rightarrow> int \<Rightarrow> int" where
  "score_rows [] score = score"
| "score_rows (row # rows) score = score_rows rows (score_row row score)"

definition materialScore :: "cell option list list \<Rightarrow> int" where
  "materialScore board = score_rows board 0"

text \<open>
  The shuffle \<open>for (let i = moves.length - 1; i > 0; i--)\<close>. The number
  \<open>Math.floor(Math.random() * (i + 1))\<close> drawn at index \<open>i\<close> is \<open>rnd i\<close>; as
  \<open>Math.random()\<close> lies in \<open>[0, 1)\<close>, it is at most \<open>i\<close>.
\<close>

fun shuffle :: "(nat \<Rightarrow> nat) \<Rightarrow> nat \<Rightarrow> 'm list \<Rightarrow> 'm list" where
  "shuffle rnd 0 moves = moves"
| "shuffle rnd (Suc n) moves =
     (let i = Suc n;
          j = rnd i
      in shuffle rnd n (moves[i := moves ! j, j := moves ! i]))"

datatype bot_error = LoadThrows | MoveThrows

definition orient :: "color \<Rightarrow> int" where
  "orient c = (if c = W then 1 else -1)"

text \<open>The loop \<open>for (const m of moves)\<close> on the variables \<open>(chess, best, bestScore)\<close>.\<close>

fun best_loop :: "('h, 'm) chess_js \<Rightarrow> color \<Rightarrow> int \<Rightarrow> 'm list \<Rightarrow> 'h \<times> 'm option \<times> int
    \<Rightarrow> bot_error + 'm option" where
  "best_loop A c base [] (chess, best, bestScore) = Inr best"
| "best_loop A c base (m # ms) (chess, best, bestScore) =
     (case chess_move A chess m of
        None \<Rightarrow> Inl MoveThrows
      | Some chess1 \<Rightarrow>
          let score = materialScore (chess_board A chess1) * orient c;
              chess2 = chess_undo A chess1;
              delta = score - base * orient c
          in if delta > bestScore then best_loop A c base ms (chess2, Some m, delta)
             else best_loop A c base ms (chess2, best, bestScore))"

definition pickBotMove :: "('h, 'm) chess_js \<Rightarrow> (nat \<Rightarrow> nat) \<Rightarrow> string \<Rightarrow> color
    \<Rightarrow> bot_error + 'm option" where
  "pickBotMove A rnd fen_str c =
     (case chess_load A fen_str of
        None \<Rightarrow> Inl LoadThrows
      | Some chess \<Rightarrow>
          let moves = chess_moves A chess in
          if length moves = 0 then Inr None
          else
            let moves1 = shuffle rnd (length moves - 1) moves;
                base = materialScore (chess_board A chess)
            in best_loop A c base moves1 (chess, None, - 1000000000))"

text \<open>The number \<open>delta\<close> that the loop computes for the move \<open>m\<close> made in position \<open>h\<close>.\<close>

definition delta_of :: "('h, 'm) chess_js \<Rightarrow> color \<Rightarrow> 'h \<Rightarrow> 'm \<Rightarrow> int" where
  "delta_of A c h m =
     (case chess_move A h m of
        None \<Rightarrow> 0
      | Some h1 \<Rightarrow> orient c * materialScore (chess_board A h1) -
                  orient c * materialScore (chess_board A h))"

text \<open>
  The material delta as the specification words it, written without the functions of the
  bot. A piece is worth pawn 100, knight 320, bishop 330, rook 500, queen 900, king 0. The
  material score of a board is the sum over its occupied squares of the worth of the piece,
  counted positive for a white piece and negative for a black one. Oriented for white the
  score is taken as it is, oriented for black it is negated. The delta of a move is the
  oriented score after the move minus the oriented score before it.
\<close>

definition piece_worth :: "piece_type \<Rightarrow> int" where
  "piece_worth k =
     (case k of Pawn \<Rightarrow> 100 | Knight \<Rightarrow> 320 | Bishop \<Rightarrow> 330 | Rook \<Rightarrow> 500 | Queen \<Rightarrow> 900
      | King \<Rightarrow> 0)"

definition square_worth :: "cell option \<Rightarrow> int" where
  "square_worth sq =
     (case sq of
        None \<Rightarrow> 0
      | Some x \<Rightarrow> (case cell_color x of W \<Rightarrow> piece_worth (cell_type x)
                  | B \<Rightarrow> - piece_worth (cell_type x)))"

definition material :: "cell option list list \<Rightarrow> int" where
  "material b = sum_list (map square_worth (concat b))"

definition oriented_for :: "color \<Rightarrow> int \<Rightarrow> int" where
  "oriented_for c x = (case c of W \<Rightarrow> x | B \<Rightarrow> - x)"

definition material_delta :: "('h, 'm) chess_js \<Rightarrow> color \<Rightarrow> 'h \<Rightarrow> 'm \<Rightarrow> int" where
  "material_delta A c h m =
     (case chess_move A h m of
        None \<Rightarrow> 0
      | Some h1 \<Rightarrow> oriented_for c (material (chess_board A h1)) -
                  oriented_for c (material (chess_board A h)))"

text \<open>What the bot relies on: legal moves are accepted and undone, boards are 8 by 8.\<close>

definition moves_undoable :: "('h, 'm) chess_js \<Rightarrow> 'h \<Rightarrow> bool" where
  "moves_undoable A h =
     (\<forall>m \<in> set (chess_moves A h). \<exists>h1. chess_move A h m = Some h1 \<and> chess_undo A h1 = h)"

definition board_8x8 :: "cell option list list \<Rightarrow> bool" where
  "board_8x8 b = (length b = 8 \<and> (\<forall>row \<in> set b. length row = 8))"

section \<open>The move handlers of the two page components\<close>

subsection \<open>pages/index.tsx\<close>

text \<open>
  The state the handler of \<open>createRoom\<close> (and of \<open>joinRoom\<close>, which has the same body) touches:
  the \<open>fen\<close> state variable and \<open>chessRef.current\<close>. The payload's \<open>fen\<close> is \<open>None\<close> when it is
  not a string.
\<close>

record 'h page =
  page_fen :: string
  page_chessRef :: 'h

definition on_move :: "('h, 'm) chess_js \<Rightarrow> 'h page \<Rightarrow> string option \<Rightarrow> 'h page" where
  "on_move A s payload_fen =
     (case payload_fen of
        None \<Rightarrow> s
      | Some rf \<Rightarrow>
          (case chess_load A rf of
             None \<Rightarrow> s
           | Some c \<Rightarrow> s\<lparr>page_chessRef := c, page_fen := rf\<rparr>))"

subsection \<open>The page component with sandbox codes (src/unnamed/part_001)\<close>

datatype Mode = Strict | Sandbox

record 'h sandbox_page =
  sb_mode :: Mode
  sb_fen :: string
  sb_sandboxPos :: PosObj
  sb_turn :: color
  sb_chessRef :: 'h

definition startsWith :: "string \<Rightarrow> string \<Rightarrow> bool" where
  "startsWith s p = (take (length p) s = p)"

text \<open>\<open>xs.join(c)\<close>.\<close>

fun js_join :: "char \<Rightarrow> string list \<Rightarrow> string" where
  "js_join c [] = []"
| "js_join c [x] = x"
| "js_join c (x # y # ys) = x @ c # js_join c (y # ys)"

text \<open>
  \<open>s.trim()\<close> on the white space that is a single character here: tab, line feed, vertical
  tab, form feed, carriage return and space.
\<close>

definition is_space :: "char \<Rightarrow> bool" where
  "is_space ch = (of_char ch \<in> {9, 10, 11, 12, 13, 32 :: nat})"

definition js_trim :: "string \<Rightarrow> string" where
  "js_trim s = rev (dropWhile is_space (rev (dropWhile is_space s)))"

text \<open>
  The assignment \<open>obj[sq] = piece\<close> on a plain object. For the key \<open>__proto__\<close> it runs the
  setter that the object inherits from \<open>Object.prototype\<close>; the setter ignores a string, so
  nothing is stored. Every other key becomes a property of the object.
\<close>

definition assign :: "PosObj \<Rightarrow> string \<Rightarrow> string \<Rightarrow> PosObj" where
  "assign obj key v = (if key = ''__proto__'' then obj else obj(key \<mapsto> v))"

text \<open>The loop \<open>for (const chunk of rest.split(','))\<close> on \<open>obj\<close>.\<close>

fun chunk_loop :: "string list \<Rightarrow> PosObj \<Rightarrow> PosObj" where
  "chunk_loop [] obj = obj"
| "chunk_loop (chunk # chunks) obj =
     (let ps = js_split (CHR '':'') chunk;
          piece = field ps 0;
          sq = field ps 1
      in case (piece, sq) of
           (Some p, Some q) \<Rightarrow>
             if p \<noteq> [] \<and> q \<noteq> [] then chunk_loop chunks (assign obj q p) else chunk_loop chunks obj
         | _ \<Rightarrow> chunk_loop chunks obj)"

definition importFENText :: "'h sandbox_page \<Rightarrow> string \<Rightarrow> 'h sandbox_page" where
  "importFENText s text =
     (if startsWith text ''SANDBOX:'' then
        let parts = js_split (CHR '':'') text;
            t = (if field parts 1 = Some ''b'' then B else W);
            rest = js_join (CHR '':'') (drop 2 parts);
            obj = (if js_trim rest \<noteq> [] then chunk_loop (js_split (CHR '','') rest) Map.empty
                   else Map.empty)
        in s\<lparr>sb_mode := Sandbox, sb_sandboxPos := obj, sb_turn := t\<rparr>
      else s\<lparr>sb_mode := Strict, sb_fen := text\<rparr>)"

text \<open>
  \<open>exportFEN\<close>, which builds the string a peer broadcasts. \<open>Object.entries(sandboxPos)\<close> is
  the list of the pairs of the map in the order of the object; a map has no order, so the
  list is the argument \<open>entries\<close>.
\<close>

definition exportFEN :: "'h sandbox_page \<Rightarrow> (string \<times> string) list \<Rightarrow> string" where
  "exportFEN s entries =
     (if sb_mode s = Strict then sb_fen s
      else
        let pieces = js_join (CHR '','') (map (\<lambda>(sq, p). p @ '':'' @ sq) entries)
        in ''SANDBOX:'' @ turn_str (sb_turn s) @ '':'' @ pieces)"

text \<open>
  The entries of a sandbox position that a code can carry: the keys are distinct (they are
  the keys of one object), no key and no piece is empty or holds a colon or a comma, and no
  key is \<open>__proto__\<close>. Square names and palette codes are of this kind.
\<close>

definition code_entries :: "(string \<times> string) list \<Rightarrow> bool" where
  "code_entries entries =
     (distinct (map fst entries) \<and>
      (\<forall>(sq, p) \<in> set entries.
          sq \<noteq> [] \<and> p \<noteq> [] \<and> sq \<noteq> ''__proto__'' \<and>
          CHR '':'' \<notin> set sq \<and> CHR '','' \<notin> set sq \<and>
          CHR '':'' \<notin> set p \<and> CHR '','' \<notin> set p))"

definition on_move_sandbox :: "('h, 'm) chess_js \<Rightarrow> 'h sandbox_page \<Rightarrow> string option \<Rightarrow> 'h sandbox_page" where
  "on_move_sandbox A s payload_fen =
     (case payload_fen of
        None \<Rightarrow> s
      | Some rf \<Rightarrow>
          if startsWith rf ''SANDBOX:'' then importFENText s rf
          else
            (case chess_load A rf of
               None \<Rightarrow> s
             | Some c \<Rightarrow> s\<lparr>sb_chessRef := c, sb_fen := rf, sb_turn := chess_turn A c\<rparr>))"

subsection \<open>A small oracle to run the handlers and the bot on\<close>

text \<open>
  Handles and moves are numbers. It loads exactly the strings with six space-separated
  fields. Position 0 has a black pawn on a8 and a white queen on b8, and the moves 1, 2
  and 3 are legal in it: move 1 takes the black pawn, move 2 takes nothing, move 3 takes
  the white queen.
\<close>

definition both_board :: "cell option list list" where
  "both_board = (Some \<lparr>cell_type = Pawn, cell_color = B\<rparr> #
                 Some \<lparr>cell_type = Queen, cell_color = W\<rparr> # replicate 6 None) #
                replicate 7 (replicate 8 None)"

definition queen_board :: "cell option list list" where
  "queen_board = (None # Some \<lparr>cell_type = Queen, cell_color = W\<rparr> # replicate 6 None) #
                 replicate 7 (replicate 8 None)"

definition pawn_board :: "cell option list list" where
  "pawn_board = (Some \<lparr>cell_type = Pawn, cell_color = B\<rparr> # replicate 7 None) #
                replicate 7 (replicate 8 None)"

definition small_oracle :: "(nat, nat) chess_js" where
  "small_oracle =
     \<lparr>chess_load = (\<lambda>s. if length (js_split (CHR '' '') s) = 6 then Some 0 else None),
      chess_moves = (\<lambda>h. if h = 0 then [1, 2, 3] else []),
      chess_move = (\<lambda>h m. Some m),
      chess_undo = (\<lambda>h. 0),
      chess_board = (\<lambda>h. if h = 1 then queen_board else if h = 3 then pawn_board else both_board),
      chess_turn = (\<lambda>h. W)\<rparr>"

definition start_page :: "nat page" where
  "start_page = \<lparr>page_fen = ''3k4/8/8/8/8/8/8/3K4 w - - 0 1'', page_chessRef = 7\<rparr>"

text \<open>A receiving page, and a sending page in sandbox mode with white to move.\<close>

definition start_sandbox_page :: "nat sandbox_page" where
  "start_sandbox_page =
     \<lparr>sb_mode = Strict, sb_fen = ''3k4/8/8/8/8/8/8/3K4 w - - 0 1'',
      sb_sandboxPos = [''h1'' \<mapsto> ''wR''], sb_turn = B, sb_chessRef = 7\<rparr>"

definition sender_page :: "nat sandbox_page" where
  "sender_page =
     \<lparr>sb_mode = Sandbox, sb_fen = ''8/8/8/8/8/8/8/8 w - - 0 1'',
      sb_sandboxPos = map_of [(''e1'', ''wK''), (''a2'', ''bP'')], sb_turn = W, sb_chessRef = 0\<rparr>"

section \<open>Lemmas about the codec\<close>

subsection \<open>Piece letters and digits\<close>

lemma toUpperCase_vals:
  "toUpperCase (CHR ''K'') = CHR ''K''" "toUpperCase (CHR ''k'') = CHR ''K''"
  "toUpperCase (CHR ''Q'') = CHR ''Q''" "toUpperCase (CHR ''q'') = CHR ''Q''"
  "toUpperCase (CHR ''R'') = CHR ''R''" "toUpperCase (CHR ''r'') = CHR ''R''"
  "toUpperCase (CHR ''B'') = CHR ''B''" "toUpperCase (CHR ''b'') = CHR ''B''"
  "toUpperCase (CHR ''N'') = CHR ''N''" "toUpperCase (CHR ''n'') = CHR ''N''"
  "toUpperCase (CHR ''P'') = CHR ''P''" "toUpperCase (CHR ''p'') = CHR ''P''"
  by code_simp+

lemma piece_symbol:
  assumes "p \<in> set pieces"
  shows "\<exists>sy. pieceToSymbol inherited p = Sym sy \<and> symbolToPiece sy = Inr p \<and> \<not> is_digit sy
           \<and> sy \<noteq> CHR ''/'' \<and> sy \<noteq> CHR '' ''
           \<and> (sy = CHR ''K'' \<longleftrightarrow> p = ''wK'') \<and> (sy = CHR ''k'' \<longleftrightarrow> p = ''bK'')"
  using assms unfolding pieces_def
  by (auto simp: pieceToSymbol_def symbolToPiece_def toUpperCase_vals is_digit_def)

lemma pieces_nonempty: "p \<in> set pieces \<Longrightarrow> p \<noteq> []"
  by (auto simp: pieces_def)

lemma show_nat_digit: "n < 10 \<Longrightarrow> show_nat n = [digit_char n]"
  by (subst show_nat.simps) simp

lemma digit_char_props:
  assumes "n < 10"
  shows "is_digit (digit_char n)" "parseInt (digit_char n) = n" "digit_char n \<noteq> CHR ''/''" "digit_char n \<noteq> CHR '' ''"
proof -
  from assms have "n \<in> {0,1,2,3,4,5,6,7,8,9}" by auto
  then show "is_digit (digit_char n)" "parseInt (digit_char n) = n" "digit_char n \<noteq> CHR ''/''" "digit_char n \<noteq> CHR '' ''"
    by (auto simp: digit_char_def is_digit_def parseInt_def)
qed

lemma decode_digit:
  "n < 10 \<Longrightarrow> placement_loop (show_nat n @ rest) (pos, rank, file) = placement_loop rest (pos, rank, file + n)"
  by (simp add: digit_char_props show_nat_digit)

subsection \<open>The inner loop over the files of a rank\<close>

lemma rank_keys_8: "rank_keys r 8 = {}"
  by (auto simp: rank_keys_def)

lemma rank_keys_step: "f < 8 \<Longrightarrow> rank_keys r f = insert (square f (int r)) (rank_keys r (Suc f))"
  by (auto simp: rank_keys_def elim: le_neq_trans Suc_leI) (metis Suc_leI le_neq_trans)

lemma count_row_8: "count_row obj q r 8 = 0"
  by (simp add: count_row_def)

lemma count_row_step: "f < 8 \<Longrightarrow> count_row obj q r f =
   (if obj (square f (int r)) = Some q then 1 else 0) + count_row obj q r (Suc f)"
  by (simp add: count_row_def upt_conv_Cons)

lemma add_restrict_None: "obj k = None \<Longrightarrow> pos ++ (obj |` insert k S) = pos ++ (obj |` S)"
  by (rule ext) (simp add: map_add_def restrict_map_def)

lemma add_restrict_Some: "obj k = Some p \<Longrightarrow> pos ++ (obj |` insert k S) = (pos(k \<mapsto> p)) ++ (obj |` S)"
  by (rule ext) (simp add: map_add_def restrict_map_def split: option.splits)

lemma flush_decode:
  "e \<le> 8 \<Longrightarrow> placement_loop (flush e @ rest) (pos, rank, fi) = placement_loop rest (pos, rank, fi + e)"
  using decode_digit[of e rest pos rank fi] by (simp add: flush_def)

lemma flush_no_space: "e \<le> 8 \<Longrightarrow> CHR '' '' \<notin> set (flush e)"
  using digit_char_props(4)[of e] by (simp add: flush_def show_nat_digit)

lemma scan_files_Inr:
  assumes "scan_files inherited obj r f (pl, e, wk, bk) = Inr (pl', e', wk', bk')"
    and "valid_row obj r" and "e \<le> f" and "f \<le> 8"
  shows "wk' = wk + count_row obj ''wK'' r f \<and> bk' = bk + count_row obj ''bK'' r f \<and> e' \<le> 8 \<and>
         (\<exists>s. pl' = pl @ s \<and> CHR '' '' \<notin> set s \<and>
              (\<forall>pos rest. placement_loop (s @ flush e' @ rest) (pos, int r, f - e) =
                           placement_loop rest (pos ++ (obj |` rank_keys r f), int r, 8)))"
  using assms
proof (induction n \<equiv> "8 - f" arbitrary: f pl e wk bk)
  case 0
  then have f8: "f = 8" by simp
  with 0 have eq: "pl' = pl" "e' = e" "wk' = wk" "bk' = bk"
    by (simp_all add: scan_files.simps)
  have "\<forall>pos rest. placement_loop ([] @ flush e' @ rest) (pos, int r, f - e) =
                           placement_loop rest (pos ++ (obj |` rank_keys r f), int r, 8)"
    using 0 f8 eq by (simp add: flush_decode rank_keys_8)
  then show ?case using eq f8 0 by (simp add: count_row_8 del: append_Nil)
next
  case (Suc n)
  then have f8: "f < 8" by simp
  let ?sq = "square f (int r)"
  show ?case
  proof (cases "obj ?sq")
    case None
    with Suc.prems(1) f8 have rec: "scan_files inherited obj r (Suc f) (pl, Suc e, wk, bk) = Inr (pl', e', wk', bk')"
      by (simp add: scan_files.simps[of inherited obj r f])
    have n: "n = 8 - Suc f" using Suc.hyps(2) by simp
    from Suc.hyps(1)[OF n rec Suc.prems(2)] Suc.prems(3) f8
    show ?thesis
      by (simp add: count_row_step[OF f8] rank_keys_step[OF f8] None add_restrict_None)
  next
    case (Some p)
    with Suc.prems(2) f8 have pv: "p \<in> set pieces" by (simp add: valid_row_def)
    then have pne: "p \<noteq> []" by (rule pieces_nonempty)
    from piece_symbol[OF pv] obtain sy where sy: "pieceToSymbol inherited p = Sym sy" "symbolToPiece sy = Inr p"
      "\<not> is_digit sy" "sy \<noteq> CHR ''/''" "sy \<noteq> CHR '' ''"
      "(sy = CHR ''K'') = (p = ''wK'')" "(sy = CHR ''k'') = (p = ''bK'')" by blast
    let ?pl1 = "(if e \<noteq> 0 then pl @ show_nat e else pl) @ [sy]"
    let ?wk1 = "if sy = CHR ''K'' then wk + 1 else wk"
    let ?bk1 = "if sy = CHR ''k'' then bk + 1 else bk"
    from Suc.prems(1) f8 Some pne sy(1)
    have rec: "scan_files inherited obj r (Suc f) (?pl1, 0, ?wk1, ?bk1) = Inr (pl', e', wk', bk')"
      by (simp add: scan_files.simps[of inherited obj r f] Let_def split: if_splits)
    have n: "n = 8 - Suc f" using Suc.hyps(2) by simp
    from Suc.hyps(1)[OF n rec Suc.prems(2)] f8
    obtain s where IH: "wk' = ?wk1 + count_row obj ''wK'' r (Suc f)" "bk' = ?bk1 + count_row obj ''bK'' r (Suc f)"
      "e' \<le> 8" "pl' = ?pl1 @ s" "CHR '' '' \<notin> set s"
      "\<And>pos rest. placement_loop (s @ flush e' @ rest) (pos, int r, Suc f) =
                           placement_loop rest (pos ++ (obj |` rank_keys r (Suc f)), int r, 8)"
      by auto
    let ?s = "flush e @ [sy] @ s"
    have e8: "e \<le> 8" using Suc.prems(3) f8 by simp
    have a: "pl' = pl @ ?s" using IH(4) by (simp add: flush_def)
    have b: "CHR '' '' \<notin> set ?s" using IH(5) sy(5) flush_no_space[OF e8] by simp
    have c: "placement_loop (?s @ flush e' @ rest) (pos, int r, f - e) =
                           placement_loop rest (pos ++ (obj |` rank_keys r f), int r, 8)" for pos rest
    proof -
      have "placement_loop (?s @ flush e' @ rest) (pos, int r, f - e)
          = placement_loop ([sy] @ s @ flush e' @ rest) (pos, int r, f)"
        using flush_decode[OF e8, of "[sy] @ s @ flush e' @ rest" pos "int r" "f - e"] Suc.prems(3) by simp
      also have "\<dots> = placement_loop (s @ flush e' @ rest) (pos(?sq \<mapsto> p), int r, Suc f)"
        using sy by simp
      also have "\<dots> = placement_loop rest ((pos(?sq \<mapsto> p)) ++ (obj |` rank_keys r (Suc f)), int r, 8)"
        by (rule IH(6))
      finally show ?thesis by (simp add: rank_keys_step[OF f8] add_restrict_Some[of obj ?sq p, OF Some])
    qed
    have d: "wk' = wk + count_row obj ''wK'' r f" "bk' = bk + count_row obj ''bK'' r f"
      using IH(1,2) sy(6,7) Some by (simp_all add: count_row_step[OF f8])
    from a b c d IH(3) show ?thesis by blast
  qed
qed

lemma scan_files_pawn:
  assumes "valid_row obj r" and "r = 1 \<or> r = 8" and "f \<le> f'" and "f' < 8"
    and "is_pawn (obj (square f' (int r)))"
  shows "scan_files inherited obj r f st = Inl (pawn_rank_error r)"
  using assms(3)
proof (induction n \<equiv> "f' - f" arbitrary: f st)
  case 0
  then have ff: "f = f'" by simp
  obtain pl e wk bk where st: "st = (pl, e, wk, bk)" by (cases st)
  show ?case using assms(2,4,5) unfolding st ff
    by (subst scan_files.simps) (auto simp: is_pawn_def)
next
  case (Suc n)
  then have f8: "f < 8" and lt: "Suc f \<le> f'" and n: "n = f' - Suc f" using assms(4) by simp_all
  obtain pl e wk bk where st: "st = (pl, e, wk, bk)" by (cases st)
  note IH = Suc.hyps(1)[OF n lt]
  show ?case
  proof (cases "obj (square f (int r))")
    case None
    then show ?thesis unfolding st using f8 IH
      by (subst scan_files.simps) simp
  next
    case (Some p)
    with assms(1) f8 have pv: "p \<in> set pieces" by (simp add: valid_row_def)
    from piece_symbol[OF pv] obtain sy where sy: "pieceToSymbol inherited p = Sym sy" by blast
    show ?thesis unfolding st using f8 IH Some sy pieces_nonempty[OF pv]
      by (subst scan_files.simps) (simp add: Let_def)
  qed
qed

lemma scan_files_total:
  assumes "valid_row obj r"
    and "\<not> ((r = 1 \<or> r = 8) \<and> (\<exists>f'. f \<le> f' \<and> f' < 8 \<and> is_pawn (obj (square f' (int r)))))"
  shows "\<exists>st'. scan_files inherited obj r f st = Inr st'"
  using assms(2)
proof (induction n \<equiv> "8 - f" arbitrary: f st)
  case 0
  obtain pl e wk bk where st: "st = (pl, e, wk, bk)" by (cases st)
  from 0 show ?case unfolding st by (subst scan_files.simps) simp
next
  case (Suc n)
  then have f8: "f < 8" and n: "n = 8 - Suc f" by simp_all
  obtain pl e wk bk where st: "st = (pl, e, wk, bk)" by (cases st)
  have nx: "\<not> ((r = 1 \<or> r = 8) \<and> (\<exists>f'. Suc f \<le> f' \<and> f' < 8 \<and> is_pawn (obj (square f' (int r)))))"
    using Suc.prems by (meson Suc_leD)
  note IH = Suc.hyps(1)[OF n nx]
  show ?case
  proof (cases "obj (square f (int r))")
    case None
    then show ?thesis unfolding st using f8 IH
      by (subst scan_files.simps) simp
  next
    case (Some p)
    with assms(1) f8 have pv: "p \<in> set pieces" by (simp add: valid_row_def)
    from piece_symbol[OF pv] obtain sy where sy: "pieceToSymbol inherited p = Sym sy" by blast
    have np: "\<not> ((r = 1 \<or> r = 8) \<and> (p = ''wP'' \<or> p = ''bP''))"
      using Suc.prems f8 Some by (auto simp: is_pawn_def)
    show ?thesis unfolding st using f8 IH Some sy pieces_nonempty[OF pv] np
      by (subst scan_files.simps) (simp add: Let_def)
  qed
qed

subsection \<open>The outer loop over the ranks\<close>

lemma keys_upto_0: "keys_upto 0 = {}"
  by (simp add: keys_upto_def)

lemma keys_upto_Suc: "keys_upto (Suc n) = rank_keys (Suc n) 0 \<union> keys_upto n"
  by (auto simp: keys_upto_def atLeastAtMostSuc_conv)

lemma count_upto_0: "count_upto obj q 0 = 0"
  by (simp add: count_upto_def)

lemma count_upto_Suc: "count_upto obj q (Suc n) = count_row obj q (Suc n) 0 + count_upto obj q n"
  by (simp add: count_upto_def)

lemma add_restrict_Un: "(pos ++ (obj |` A)) ++ (obj |` C) = pos ++ (obj |` (A \<union> C))"
  by (rule ext) (auto simp: map_add_def restrict_map_def split: option.splits)

lemma scan_ranks_0: "scan_ranks inherited obj 0 st = Inr st"
  by (cases st) (simp add: scan_ranks.simps)

lemma scan_ranks_Suc:
  "scan_ranks inherited obj (Suc n) (pl, wk, bk) =
     (case scan_files inherited obj (Suc n) 0 (pl, 0, wk, bk) of
        Inl e \<Rightarrow> Inl e
      | Inr (pl1, e1, wk1, bk1) \<Rightarrow>
          scan_ranks inherited obj n ((pl1 @ flush e1) @ (if n \<noteq> 0 then ''/'' else []), wk1, bk1))"
  by (subst scan_ranks.simps) (simp add: flush_def Let_def split: sum.splits)

lemma pawn_on_rank_iff:
  "pawn_on_rank obj r = (\<exists>f'. 0 \<le> f' \<and> f' < 8 \<and> is_pawn (obj (square f' (int r))))"
  by (auto simp: pawn_on_rank_def)

lemma scan_ranks_Inr:
  assumes "scan_ranks inherited obj r (pl, wk, bk) = Inr (pl', wk', bk')" and "\<forall>r'. valid_row obj r'"
  shows "wk' = wk + count_upto obj ''wK'' r \<and> bk' = bk + count_upto obj ''bK'' r \<and>
         (\<exists>s. pl' = pl @ s \<and> CHR '' '' \<notin> set s \<and>
              (\<forall>pos. placement_loop s (pos, int r, 0) = Inr (pos ++ (obj |` keys_upto r))))"
  using assms(1)
proof (induction r arbitrary: pl wk bk)
  case 0
  then have "pl' = pl" "wk' = wk" "bk' = bk" by (simp_all add: scan_ranks_0)
  then show ?case by (simp add: count_upto_0 keys_upto_0)
next
  case (Suc n)
  from Suc.prems obtain pl1 e1 wk1 bk1 where
    row: "scan_files inherited obj (Suc n) 0 (pl, 0, wk, bk) = Inr (pl1, e1, wk1, bk1)" and
    rec: "scan_ranks inherited obj n ((pl1 @ flush e1) @ (if n \<noteq> 0 then ''/'' else []), wk1, bk1) = Inr (pl', wk', bk')"
    by (auto simp: scan_ranks_Suc split: sum.splits)
  from scan_files_Inr[OF row] assms(2)
  obtain s1 where R: "wk1 = wk + count_row obj ''wK'' (Suc n) 0" "bk1 = bk + count_row obj ''bK'' (Suc n) 0"
    "e1 \<le> 8" "pl1 = pl @ s1" "CHR '' '' \<notin> set s1"
    "\<And>pos rest. placement_loop (s1 @ flush e1 @ rest) (pos, int (Suc n), 0) =
                           placement_loop rest (pos ++ (obj |` rank_keys (Suc n) 0), int (Suc n), 8)"
    by auto
  from Suc.IH[OF rec]
  obtain s2 where I: "wk' = wk1 + count_upto obj ''wK'' n" "bk' = bk1 + count_upto obj ''bK'' n"
    "pl' = ((pl1 @ flush e1) @ (if n \<noteq> 0 then ''/'' else [])) @ s2" "CHR '' '' \<notin> set s2"
    "\<And>pos. placement_loop s2 (pos, int n, 0) = Inr (pos ++ (obj |` keys_upto n))"
    by auto
  let ?sl = "(if n \<noteq> 0 then ''/'' else [])"
  let ?s = "s1 @ flush e1 @ ?sl @ s2"
  have a: "pl' = pl @ ?s" using I(3) R(4) by simp
  have b: "CHR '' '' \<notin> set ?s" using R(5) I(4) flush_no_space[OF R(3)] by simp
  have c: "placement_loop ?s (pos, int (Suc n), 0) = Inr (pos ++ (obj |` keys_upto (Suc n)))" for pos
  proof -
    have "placement_loop ?s (pos, int (Suc n), 0)
        = placement_loop (?sl @ s2) (pos ++ (obj |` rank_keys (Suc n) 0), int (Suc n), 8)"
      by (rule R(6))
    also have "\<dots> = Inr ((pos ++ (obj |` rank_keys (Suc n) 0)) ++ (obj |` keys_upto n))"
    proof (cases "n = 0")
      case True
      with rec have "s2 = []" using I(3) by (simp add: scan_ranks_0)
      with True show ?thesis by (simp add: keys_upto_0)
    next
      case False
      then show ?thesis using I(5) by simp
    qed
    finally show ?thesis by (simp add: add_restrict_Un keys_upto_Suc)
  qed
  have d: "wk' = wk + count_upto obj ''wK'' (Suc n)" "bk' = bk + count_upto obj ''bK'' (Suc n)"
    using I(1,2) R(1,2) by (simp_all add: count_upto_Suc)
  from a b c d show ?case by blast
qed

lemma scan_ranks_pawn8:
  assumes "\<forall>r'. valid_row obj r'" and "pawn_on_rank obj 8"
  shows "scan_ranks inherited obj 8 st = Inl (pawn_rank_error 8)"
proof -
  obtain pl wk bk where st: "st = (pl, wk, bk)" by (cases st)
  from assms(2) obtain f' where f: "f' < 8" "is_pawn (obj (square f' (int 8)))"
    by (auto simp: pawn_on_rank_def)
  have "scan_files inherited obj 8 0 (pl, 0, wk, bk) = Inl (pawn_rank_error 8)"
    using scan_files_pawn[where obj = obj and r = 8 and f = 0 and f' = f'] assms(1) f by simp
  then show ?thesis unfolding st
    using scan_ranks_Suc[of inherited obj 7 pl wk bk] by simp
qed

lemma scan_ranks_pawn1:
  assumes "\<forall>r'. valid_row obj r'" and "pawn_on_rank obj 1" and "\<not> pawn_on_rank obj 8"
    and "1 \<le> r" and "r \<le> 8"
  shows "scan_ranks inherited obj r st = Inl (pawn_rank_error 1)"
  using assms(4,5)
proof (induction r arbitrary: st)
  case 0
  then show ?case by simp
next
  case (Suc n)
  obtain pl wk bk where st: "st = (pl, wk, bk)" by (cases st)
  from assms(2) obtain f' where f: "f' < 8" "is_pawn (obj (square f' (int 1)))"
    by (auto simp: pawn_on_rank_def)
  show ?case
  proof (cases "n = 0")
    case True
    have "scan_files inherited obj 1 0 (pl, 0, wk, bk) = Inl (pawn_rank_error 1)"
      using scan_files_pawn[where obj = obj and r = 1 and f = 0 and f' = f'] assms(1) f by simp
    then show ?thesis unfolding st using True by (simp add: scan_ranks_Suc)
  next
    case False
    have "\<not> ((Suc n = 1 \<or> Suc n = 8) \<and> (\<exists>f'. 0 \<le> f' \<and> f' < 8 \<and> is_pawn (obj (square f' (int (Suc n))))))"
      using False assms(3) by (auto simp: pawn_on_rank_iff)
    from scan_files_total[OF _ this, where st = "(pl, 0, wk, bk)" and inherited = inherited] assms(1)
    obtain st' where "scan_files inherited obj (Suc n) 0 (pl, 0, wk, bk) = Inr st'" by blast
    moreover have "1 \<le> n" "n \<le> 8" using False Suc.prems by simp_all
    ultimately show ?thesis unfolding st using Suc.IH
      by (cases st') (simp add: scan_ranks_Suc)
  qed
qed

lemma scan_ranks_total:
  assumes "\<forall>r'. valid_row obj r'" and "\<not> pawn_on_rank obj 1" and "\<not> pawn_on_rank obj 8"
  shows "\<exists>st'. scan_ranks inherited obj r st = Inr st'"
proof (induction r arbitrary: st)
  case 0
  show ?case using scan_ranks_0 by blast
next
  case (Suc n)
  obtain pl wk bk where st: "st = (pl, wk, bk)" by (cases st)
  have "\<not> ((Suc n = 1 \<or> Suc n = 8) \<and> (\<exists>f'. 0 \<le> f' \<and> f' < 8 \<and> is_pawn (obj (square f' (int (Suc n))))))"
    unfolding pawn_on_rank_iff[symmetric] using assms(2,3) by metis
  from scan_files_total[OF _ this, where st = "(pl, 0, wk, bk)" and inherited = inherited] assms(1)
  obtain st' where "scan_files inherited obj (Suc n) 0 (pl, 0, wk, bk) = Inr st'" by blast
  then show ?case unfolding st using Suc.IH
    by (cases st') (simp add: scan_ranks_Suc)
qed

subsection \<open>The whole board and the emitted string\<close>

lemma distinct_all_squares: "distinct all_squares"
  by code_simp

lemma valid_rows: "editor_position obj \<Longrightarrow> valid_row obj r"
  by (simp add: editor_position_def valid_row_def)

lemma length_filter_concat:
  "length (filter P (concat xss)) = sum_list (map (\<lambda>xs. length (filter P xs)) xss)"
  by (induction xss) simp_all

lemma count_piece_upto: "count_piece obj q = count_upto obj q 8"
proof -
  have "length (filter (\<lambda>sq. obj sq = Some q) (map (\<lambda>f. square f (int r)) [0..<8])) = count_row obj q r 0" for r
    by (simp add: count_row_def filter_map comp_def)
  then show ?thesis
    by (simp add: count_piece_def all_squares_def count_upto_def length_filter_concat comp_def)
qed

lemma set_all_squares: "set all_squares = keys_upto 8"
proof -
  have "set (map (\<lambda>f. square f (int r)) [0..<8]) = rank_keys r 0" for r
    by (auto simp: rank_keys_def)
  moreover have "set (rev [1..<9]) = {1..8::nat}" by auto
  ultimately show ?thesis
    by (simp add: all_squares_def keys_upto_def del: set_rev set_upt upt_Suc)
qed

lemma restrict_all:
  assumes "editor_position obj"
  shows "Map.empty ++ (obj |` keys_upto 8) = obj"
proof (rule ext)
  fix x
  show "(Map.empty ++ (obj |` keys_upto 8)) x = obj x"
    using assms unfolding set_all_squares[symmetric]
    by (cases "obj x") (auto simp: editor_position_def restrict_map_def map_add_def)
qed

lemma js_split_nonempty: "js_split c s \<noteq> []"
  by (induction s) (auto split: list.splits)

lemma js_split_no_sep: "c \<notin> set a \<Longrightarrow> js_split c a = [a]"
  by (induction a) auto

lemma js_split_append: "c \<notin> set a \<Longrightarrow> js_split c (a @ c # rest) = a # js_split c rest"
  by (induction a) (auto split: list.splits)

lemma castle_field_rights:
  "castle_field c = (if rights_letters c = [] then ''-'' else rights_letters c)"
  by (simp add: castle_field_def rights_letters_def)

lemma castle_field_no_space: "CHR '' '' \<notin> set (castle_field c)"
  by (simp add: castle_field_def)

lemma castle_field_includes:
  "str_includes (Some (castle_field c)) (CHR ''K'') = castle_K c"
  "str_includes (Some (castle_field c)) (CHR ''Q'') = castle_Q c"
  "str_includes (Some (castle_field c)) (CHR ''k'') = castle_k c"
  "str_includes (Some (castle_field c)) (CHR ''q'') = castle_q c"
  by (simp_all add: castle_field_def str_includes_def)

lemma turn_str_no_space: "CHR '' '' \<notin> set (turn_str t)"
  by (cases t) simp_all

lemma posObjToFen_accepts:
  assumes "editor_position obj" and "count_piece obj ''wK'' = 1" and "count_piece obj ''bK'' = 1"
    and "\<not> pawn_on_rank obj 1" and "\<not> pawn_on_rank obj 8"
  shows "\<exists>pl. CHR '' '' \<notin> set pl \<and> placement_loop pl (Map.empty, 8, 0) = Inr obj \<and>
           posObjToFen inherited obj t c =
             \<lparr>fen = Some (pl @ '' '' @ turn_str t @ '' '' @ castle_field c @ '' '' @
                           autoDetectEnPassant obj t @ '' 0 1''), error = None\<rparr>"
proof -
  have v: "\<forall>r'. valid_row obj r'" using assms(1) by (simp add: valid_rows)
  from scan_ranks_total[OF v assms(4,5), where r = 8 and st = "([], 0, 0)" and inherited = inherited]
  obtain pl wk bk where sr: "scan_ranks inherited obj 8 ([], 0, 0) = Inr (pl, wk, bk)"
    by (metis prod_cases3)
  from scan_ranks_Inr[OF sr v]
  have k: "wk = 1" "bk = 1" and sp: "CHR '' '' \<notin> set pl"
    and dec: "placement_loop pl (Map.empty, int 8, 0) = Inr (Map.empty ++ (obj |` keys_upto 8))"
    using assms(2,3) by (auto simp: count_piece_upto)
  have "placement_loop pl (Map.empty, 8, 0) = Inr obj"
    using dec restrict_all[OF assms(1)] by simp
  moreover have "posObjToFen inherited obj t c =
             \<lparr>fen = Some (pl @ '' '' @ turn_str t @ '' '' @ castle_field c @ '' '' @
                           autoDetectEnPassant obj t @ '' 0 1''), error = None\<rparr>"
    using sr k by (simp add: posObjToFen_def Let_def)
  ultimately show ?thesis using sp by blast
qed

subsection \<open>The en-passant loop\<close>

lemma ep_loop_filter:
  "ep_loop obj cr er en fr fs cands =
     cands @ map (\<lambda>f. [f, er])
       (filter (\<lambda>f. obj [f, cr] = Some en \<and> \<not> truthy (obj [f, er]) \<and>
                 ((fileIndex f > 0 \<and> obj [FILES ! nat (fileIndex f - 1), cr] = Some fr) \<or>
                  (fileIndex f < 7 \<and> obj [FILES ! nat (fileIndex f + 1), cr] = Some fr))) fs)"
  by (induction fs arbitrary: cands) (simp_all add: Let_def)

lemma FILES_map: "FILES = map (\<lambda>i. FILES ! i) [0..<8]"
  by (simp add: FILES_def upt_rec)

lemma fileIndex_nth: "i < 8 \<Longrightarrow> fileIndex (FILES ! i) = int i"
proof -
  assume "i < 8"
  then have "i \<in> {0,1,2,3,4,5,6,7}" by auto
  then show ?thesis by (auto simp: fileIndex_def FILES_def)
qed

lemma square_file: "i < 8 \<Longrightarrow> 0 \<le> r \<Longrightarrow> r < 10 \<Longrightarrow> square i r = [FILES ! i, digit_char (nat r)]"
  by (simp add: square_def file_str_def show_int_def show_nat_digit)

lemma square_ranks:
  assumes "i < 8"
  shows "square i 3 = [FILES ! i, CHR ''3'']" "square i 4 = [FILES ! i, CHR ''4'']"
    "square i 5 = [FILES ! i, CHR ''5'']" "square i 6 = [FILES ! i, CHR ''6'']"
  using assms by (simp_all add: square_file digit_char_def)

lemma single_case: "(if length xs = 1 then xs ! 0 else d) = (case xs of [x] \<Rightarrow> x | _ \<Rightarrow> d)"
  by (cases xs; cases "tl xs") auto

lemma truthy_None: "\<forall>sq. obj sq \<noteq> Some [] \<Longrightarrow> truthy (obj k) = (obj k \<noteq> None)"
  by (cases "obj k") auto

lemma map_filter_cong:
  assumes "\<And>x. x \<in> set xs \<Longrightarrow> P x = Q x" and "\<And>x. x \<in> set xs \<Longrightarrow> g x = h x"
  shows "map g (filter P xs) = map h (filter Q xs)"
  using assms by (induction xs) auto

lemma ep_loop_targets_W:
  assumes "\<forall>sq. obj sq \<noteq> Some []"
  shows "ep_loop obj (CHR ''5'') (CHR ''6'') ''bP'' ''wP'' FILES [] = ep_targets obj W"
proof -
  note tn = truthy_None[OF assms]
  show ?thesis
    apply (subst FILES_map)
    apply (simp only: ep_loop_filter ep_targets_def filter_map map_map append_Nil comp_def)
    apply (rule map_filter_cong)
     apply (auto simp: fileIndex_nth ep_candidate_def square_ranks tn nat_add_distrib nat_diff_distrib')
    done
qed

lemma ep_loop_targets_B:
  assumes "\<forall>sq. obj sq \<noteq> Some []"
  shows "ep_loop obj (CHR ''4'') (CHR ''3'') ''wP'' ''bP'' FILES [] = ep_targets obj B"
proof -
  note tn = truthy_None[OF assms]
  show ?thesis
    apply (subst FILES_map)
    apply (simp only: ep_loop_filter ep_targets_def filter_map map_map append_Nil comp_def)
    apply (rule map_filter_cong)
     apply (auto simp: fileIndex_nth ep_candidate_def square_ranks tn nat_add_distrib nat_diff_distrib')
    done
qed

lemma autoDetect_targets:
  assumes "\<forall>sq. obj sq \<noteq> Some []"
  shows "autoDetectEnPassant obj t = (case ep_targets obj t of [x] \<Rightarrow> x | _ \<Rightarrow> ''-'')"
  by (cases t)
    (simp_all add: autoDetectEnPassant_def ep_loop_targets_W[OF assms] ep_loop_targets_B[OF assms]
      single_case Let_def del: One_nat_def)

lemma ep_loop_no_space:
  assumes "er \<noteq> CHR '' ''" and "x \<in> set (ep_loop obj cr er en fr FILES [])"
  shows "CHR '' '' \<notin> set x"
proof -
  from assms(2) obtain f where "f \<in> set FILES" "x = [f, er]"
    by (auto simp: ep_loop_filter)
  moreover have "CHR '' '' \<notin> set FILES" by (simp add: FILES_def)
  ultimately show ?thesis using assms(1) by auto
qed

lemma autoDetect_no_space: "CHR '' '' \<notin> set (autoDetectEnPassant obj t)"
proof -
  have n: "length xs = 1 \<Longrightarrow> xs ! 0 \<in> set xs" for xs :: "string list"
    by (cases xs) auto
  show ?thesis
  proof (cases t)
    case W
    show ?thesis
      using n[of "ep_loop obj (CHR ''5'') (CHR ''6'') ''bP'' ''wP'' FILES []"]
        ep_loop_no_space[of "CHR ''6''" _ obj "CHR ''5''" "''bP''" "''wP''"]
      unfolding W by (auto simp: autoDetectEnPassant_def Let_def simp del: One_nat_def)
  next
    case B
    show ?thesis
      using n[of "ep_loop obj (CHR ''4'') (CHR ''3'') ''wP'' ''bP'' FILES []"]
        ep_loop_no_space[of "CHR ''3''" _ obj "CHR ''4''" "''wP''" "''bP''"]
      unfolding B by (auto simp: autoDetectEnPassant_def Let_def simp del: One_nat_def)
  qed
qed

subsection \<open>Facts about the concrete positions and the decoder\<close>

lemma kings_only_editor: "editor_position kings_only"
proof -
  have "''d1'' \<in> set all_squares" "''d8'' \<in> set all_squares" by code_simp+
  then show ?thesis
    by (auto simp: editor_position_def kings_only_def pieces_def split: if_splits)
qed

lemma kings_only_facts:
  "count_piece kings_only ''wK'' = 1" "count_piece kings_only ''bK'' = 1"
  "\<not> pawn_on_rank kings_only 1" "\<not> pawn_on_rank kings_only 8"
  by code_simp+

lemma decode_empty: "fenToPosObj ''8/8/8/8/8/8/8/8'' = Inr \<lparr>r_pos = Map.empty, r_turn = W, r_castle = no_rights\<rparr>"
  by (simp add: fenToPosObj_def field_def is_digit_def str_includes_def no_rights_def)

lemma a8: "square 0 8 = ''a8''" by code_simp

lemma placement_loop_ok:
  "(\<exists>p. placement_loop s st = Inr p) = (\<forall>ch \<in> set s. placement_char ch)"
proof (induction s arbitrary: st)
  case Nil
  then show ?case by (cases st) simp
next
  case (Cons ch cs)
  obtain p r f where st: "st = (p, r, f)" by (cases st)
  show ?case unfolding st using Cons.IH
    by (auto simp: placement_char_def symbolToPiece_def Let_def split: sum.splits)
qed

lemma placement_loop_err:
  "placement_loop s st = Inl BadSymbol \<longleftrightarrow> \<not> (\<forall>ch \<in> set s. placement_char ch)"
proof -
  have "placement_loop s st = Inl BadSymbol \<longleftrightarrow> \<not> (\<exists>p. placement_loop s st = Inr p)"
    by (cases "placement_loop s st") (auto intro: decode_error.exhaust)
  then show ?thesis by (simp add: placement_loop_ok)
qed

lemma fenToPosObj_unfold:
  "fenToPosObj s =
     (case placement_loop (hd (js_split (CHR '' '') s)) (Map.empty, 8, 0) of
        Inl e \<Rightarrow> Inl e
      | Inr p \<Rightarrow>
          Inr \<lparr>r_pos = p,
               r_turn = (if field (js_split (CHR '' '') s) 1 = Some ''b'' then B else W),
               r_castle = \<lparr>castle_K = str_includes (field (js_split (CHR '' '') s) 2) (CHR ''K''),
                          castle_Q = str_includes (field (js_split (CHR '' '') s) 2) (CHR ''Q''),
                          castle_k = str_includes (field (js_split (CHR '' '') s) 2) (CHR ''k''),
                          castle_q = str_includes (field (js_split (CHR '' '') s) 2) (CHR ''q'')\<rparr>\<rparr>)"
proof -
  obtain a rest where eq: "js_split (CHR '' '') s = a # rest"
    using js_split_nonempty[of "CHR '' ''" s] by (cases "js_split (CHR '' '') s") auto
  show ?thesis unfolding fenToPosObj_def Let_def eq by simp
qed

lemma hd_js_split_no_sep: "c \<notin> set (hd (js_split c s))"
  by (induction s) (auto split: list.splits)

lemma js_split_hd_idem: "js_split c (hd (js_split c s)) = [hd (js_split c s)]"
  by (rule js_split_no_sep) (rule hd_js_split_no_sep)

section \<open>Properties of the codec\<close>

text \<open>
  The properties of \<open>posObjToFen\<close> hold for every table \<open>inherited\<close> of inherited names:
  an editor-form position holds palette codes only, and the table is never read.
\<close>

text \<open>
  C1. Round trip of the position codec: for every editor-form position with exactly one
  king per colour and no pawn on rank 1 or 8, and every side to move and castling rights,
  \<open>posObjToFen\<close> returns a string, and \<open>fenToPosObj\<close> applied to it returns the same piece
  mapping, the same side to move and the same four castling flags.
\<close>

theorem roundtrip_decode_encode:
  assumes "editor_position obj" and "count_piece obj ''wK'' = 1" and "count_piece obj ''bK'' = 1"
    and "\<not> pawn_on_rank obj 1" and "\<not> pawn_on_rank obj 8"
  shows "\<exists>f. posObjToFen inherited obj t c = \<lparr>fen = Some f, error = None\<rparr> \<and>
             fenToPosObj f = Inr \<lparr>r_pos = obj, r_turn = t, r_castle = c\<rparr>"
proof -
  from posObjToFen_accepts[OF assms, of inherited t c]
  obtain pl where pl: "CHR '' '' \<notin> set pl" "placement_loop pl (Map.empty, 8, 0) = Inr obj"
    and enc: "posObjToFen inherited obj t c =
             \<lparr>fen = Some (pl @ '' '' @ turn_str t @ '' '' @ castle_field c @ '' '' @
                           autoDetectEnPassant obj t @ '' 0 1''), error = None\<rparr>" by blast
  let ?rest = "autoDetectEnPassant obj t @ '' 0 1''"
  let ?f = "pl @ '' '' @ turn_str t @ '' '' @ castle_field c @ '' '' @ ?rest"
  have sp: "js_split (CHR '' '') ?f = pl # turn_str t # castle_field c # js_split (CHR '' '') ?rest"
    using js_split_append[OF pl(1), of "turn_str t @ '' '' @ castle_field c @ '' '' @ ?rest"]
      js_split_append[OF turn_str_no_space, of t "castle_field c @ '' '' @ ?rest"]
      js_split_append[OF castle_field_no_space, of c ?rest]
    by simp
  have t: "(if turn_str t = ''b'' then B else W) = t" by (cases t) simp_all
  have "fenToPosObj ?f = Inr \<lparr>r_pos = obj, r_turn = t, r_castle = c\<rparr>"
    unfolding fenToPosObj_def sp using pl(2) t
    by (simp add: field_def castle_field_includes)
  with enc show ?thesis by blast
qed

theorem roundtrip_decode_encode_witness:
  "editor_position kings_only \<and> count_piece kings_only ''wK'' = 1 \<and>
   count_piece kings_only ''bK'' = 1 \<and> \<not> pawn_on_rank kings_only 1 \<and> \<not> pawn_on_rank kings_only 8 \<and>
   (\<exists>f. posObjToFen v8_inherited kings_only B no_rights = \<lparr>fen = Some f, error = None\<rparr> \<and>
        fenToPosObj f = Inr \<lparr>r_pos = kings_only, r_turn = B, r_castle = no_rights\<rparr>)"
  using roundtrip_decode_encode[OF kings_only_editor kings_only_facts, of v8_inherited B no_rights]
    kings_only_editor kings_only_facts by simp

text \<open>
  C2. En-passant inference: \<open>autoDetectEnPassant\<close> returns the target square of the only
  candidate file when exactly one file is a candidate, and \<open>"-"\<close> when none or several are.
  With a black pawn on e5 between white pawns on d5 and f5, e6 empty and white to move the
  result is \<open>"e6"\<close>; with a second eligible black pawn on c5 it is \<open>"-"\<close>.
\<close>

theorem en_passant_inference:
  assumes "\<forall>sq. obj sq \<noteq> Some []"
  shows "autoDetectEnPassant obj t = (case ep_targets obj t of [x] \<Rightarrow> x | _ \<Rightarrow> ''-'') \<and>
         autoDetectEnPassant ep_single W = ''e6'' \<and>
         autoDetectEnPassant ep_double W = ''-''"
proof -
  have "autoDetectEnPassant ep_single W = ''e6''" by code_simp
  moreover have "autoDetectEnPassant ep_double W = ''-''" by code_simp
  ultimately show ?thesis using autoDetect_targets[OF assms] by simp
qed

theorem en_passant_inference_witness:
  "(\<forall>sq. ep_double sq \<noteq> Some []) \<and> ep_targets ep_double W = [''c6'', ''e6''] \<and>
   autoDetectEnPassant ep_double W = ''-'' \<and>
   ep_targets ep_single W = [''e6''] \<and> autoDetectEnPassant ep_single W = ''e6''"
proof -
  have h: "\<forall>sq. ep_double sq \<noteq> Some []"
    by (simp add: ep_double_def ep_single_def kings_only_def)
  have "ep_targets ep_double W = [''c6'', ''e6'']" "ep_targets ep_single W = [''e6'']"
    by code_simp+
  then show ?thesis using en_passant_inference[OF h, of W] h by simp
qed

text \<open>
  C3. Pawn on a back rank: for every editor-form position with a pawn on rank 1 or rank 8,
  \<open>posObjToFen\<close> returns a null fen and the message naming the offending rank (rank 8 when
  it has a pawn, as it is scanned first; else rank 1), and no string. A pawn on a8 names
  rank 8.
\<close>

theorem pawn_on_back_rank_rejected:
  assumes "editor_position obj" and "pawn_on_rank obj 1 \<or> pawn_on_rank obj 8"
  shows "posObjToFen inherited obj t c =
           \<lparr>fen = None,
            error = Some (''Pawns cannot be on rank '' @
                          (if pawn_on_rank obj 8 then ''8'' else ''1'') @ ''. Promote them.'')\<rparr> \<and>
         (is_pawn (obj ''a8'') \<longrightarrow> pawn_on_rank obj 8)"
proof -
  have v: "\<forall>r'. valid_row obj r'" using assms(1) by (simp add: valid_rows)
  have s: "show_nat 8 = ''8''" "show_nat (Suc 0) = ''1''"
    by (simp_all add: show_nat_digit digit_char_def)
  have "posObjToFen inherited obj t c = pawn_rank_error (if pawn_on_rank obj 8 then 8 else 1)"
  proof (cases "pawn_on_rank obj 8")
    case True
    then show ?thesis using scan_ranks_pawn8[OF v True, where inherited = inherited] by (simp add: posObjToFen_def)
  next
    case False
    with assms(2) have p1: "pawn_on_rank obj 1" by simp
    show ?thesis using scan_ranks_pawn1[OF v p1 False, where r = 8 and inherited = inherited] False by (simp add: posObjToFen_def)
  qed
  moreover have "is_pawn (obj ''a8'') \<longrightarrow> pawn_on_rank obj 8"
  proof
    assume "is_pawn (obj ''a8'')"
    then have "is_pawn (obj (square 0 (int 8)))" using a8 by simp
    then show "pawn_on_rank obj 8"
      unfolding pawn_on_rank_def by (intro bexI[of _ 0]) simp_all
  qed
  ultimately show ?thesis by (simp add: pawn_rank_error_def s)
qed

theorem pawn_on_back_rank_rejected_witness:
  "editor_position pawn_a8 \<and> pawn_on_rank pawn_a8 8 \<and>
   posObjToFen v8_inherited pawn_a8 W no_rights =
     \<lparr>fen = None, error = Some ''Pawns cannot be on rank 8. Promote them.''\<rparr>"
proof -
  have "''d1'' \<in> set all_squares" "''d8'' \<in> set all_squares" "''a8'' \<in> set all_squares"
    by code_simp+
  then have e: "editor_position pawn_a8"
    by (auto simp: editor_position_def pawn_a8_def kings_only_def pieces_def split: if_splits)
  have p: "pawn_on_rank pawn_a8 8" by code_simp
  show ?thesis using pawn_on_back_rank_rejected[OF e, of v8_inherited W no_rights] e p by simp
qed

text \<open>
  C4. King count: for every editor-form position without a pawn on rank 1 or 8 in which the
  white kings or the black kings are not exactly one, \<open>posObjToFen\<close> returns a null fen and
  the message reporting both counts over the whole board, and no string.
\<close>

theorem king_count_rejected:
  assumes "editor_position obj" and "\<not> pawn_on_rank obj 1" and "\<not> pawn_on_rank obj 8"
    and "count_piece obj ''wK'' \<noteq> 1 \<or> count_piece obj ''bK'' \<noteq> 1"
  shows "posObjToFen inherited obj t c =
           \<lparr>fen = None,
            error = Some (''Place exactly one king per side (found W:'' @
                          show_nat (count_piece obj ''wK'') @ '', B:'' @
                          show_nat (count_piece obj ''bK'') @ '').'')\<rparr>"
proof -
  have v: "\<forall>r'. valid_row obj r'" using assms(1) by (simp add: valid_rows)
  from scan_ranks_total[OF v assms(2,3), where r = 8 and st = "([], 0, 0)" and inherited = inherited]
  obtain pl wk bk where sr: "scan_ranks inherited obj 8 ([], 0, 0) = Inr (pl, wk, bk)"
    by (metis prod_cases3)
  from scan_ranks_Inr[OF sr v]
  have k: "wk = count_piece obj ''wK''" "bk = count_piece obj ''bK''"
    by (simp_all add: count_piece_upto)
  show ?thesis using sr k assms(4)
    by (auto simp: posObjToFen_def king_count_error_def)
qed

theorem king_count_rejected_witness:
  "editor_position two_white_kings \<and> \<not> pawn_on_rank two_white_kings 1 \<and>
   \<not> pawn_on_rank two_white_kings 8 \<and> count_piece two_white_kings ''wK'' = 2 \<and>
   count_piece two_white_kings ''bK'' = 1 \<and>
   posObjToFen v8_inherited two_white_kings W no_rights =
     \<lparr>fen = None, error = Some ''Place exactly one king per side (found W:2, B:1).''\<rparr>"
proof -
  have "''d1'' \<in> set all_squares" "''d8'' \<in> set all_squares" "''a7'' \<in> set all_squares"
    by code_simp+
  then have e: "editor_position two_white_kings"
    by (auto simp: editor_position_def two_white_kings_def kings_only_def pieces_def split: if_splits)
  have p: "\<not> pawn_on_rank two_white_kings 1" "\<not> pawn_on_rank two_white_kings 8" by code_simp+
  have k: "count_piece two_white_kings ''wK'' = 2" "count_piece two_white_kings ''bK'' = 1"
    by code_simp+
  have s: "show_nat 2 = ''2''" "show_nat (Suc 0) = ''1''"
    by (simp_all add: show_nat_digit digit_char_def)
  show ?thesis using king_count_rejected[OF e p, of v8_inherited W no_rights] e p k by (simp add: s)
qed

text \<open>
  C7. Fewer than three fields. The claim that such an input fails with
  \<open>MalformedExchangeString\<close> does not hold for \<open>fenToPosObj\<close>: the single field
  \<open>8/8/8/8/8/8/8/8\<close> decodes to the empty board with white to move and no rights.
\<close>

theorem short_input_counterexample:
  "length (js_split (CHR '' '') ''8/8/8/8/8/8/8/8'') < 3 \<and>
   fenToPosObj ''8/8/8/8/8/8/8/8'' = Inr \<lparr>r_pos = Map.empty, r_turn = W, r_castle = no_rights\<rparr>"
  by (simp add: decode_empty)

text \<open>
  C7, as the code has it. For every input with fewer than three space-separated fields,
  \<open>fenToPosObj\<close> does not reject the input for the missing fields: when every character of
  the first field is a slash, a digit or a piece letter it returns a position, with black to
  move only if the second field is \<open>b\<close> and with no castling rights; otherwise it fails
  with the bad-symbol error of the placement.
\<close>

theorem short_input_decodes:
  assumes "length (js_split (CHR '' '') s) < 3"
  shows "if (\<forall>ch \<in> set (hd (js_split (CHR '' '') s)). placement_char ch)
         then (\<exists>d. fenToPosObj s = Inr d \<and>
                    r_turn d = (if field (js_split (CHR '' '') s) 1 = Some ''b'' then B else W) \<and>
                    r_castle d = no_rights)
         else fenToPosObj s = Inl BadSymbol"
proof (cases "\<forall>ch \<in> set (hd (js_split (CHR '' '') s)). placement_char ch")
  case True
  then obtain p where "placement_loop (hd (js_split (CHR '' '') s)) (Map.empty, 8, 0) = Inr p"
    using placement_loop_ok by blast
  moreover have "field (js_split (CHR '' '') s) 2 = None" using assms by (simp add: field_def)
  ultimately show ?thesis using True
    by (simp add: fenToPosObj_unfold str_includes_def no_rights_def)
next
  case False
  then have "placement_loop (hd (js_split (CHR '' '') s)) (Map.empty, 8, 0) = Inl BadSymbol"
    using placement_loop_err by blast
  then show ?thesis using False by (simp add: fenToPosObj_unfold)
qed

theorem short_input_decodes_witness:
  "length (js_split (CHR '' '') ''8/8/8/8/8/8/8/8 b'') < 3 \<and>
   (\<exists>d. fenToPosObj ''8/8/8/8/8/8/8/8 b'' = Inr d \<and> r_turn d = B \<and> r_castle d = no_rights)"
proof -
  have l: "length (js_split (CHR '' '') ''8/8/8/8/8/8/8/8 b'') < 3" by simp
  have h: "hd (js_split (CHR '' '') ''8/8/8/8/8/8/8/8 b'') = ''8/8/8/8/8/8/8/8''" by simp
  have f: "field (js_split (CHR '' '') ''8/8/8/8/8/8/8/8 b'') 1 = Some ''b''" by (simp add: field_def)
  have p: "\<forall>ch \<in> set ''8/8/8/8/8/8/8/8''. placement_char ch"
    by (simp add: placement_char_def is_digit_def)
  show ?thesis using short_input_decodes[OF l] l p unfolding h f by simp
qed

text \<open>
  C10. Decode defaults: whenever \<open>fenToPosObj\<close> returns, the side to move is black exactly
  when the second space-separated field is \<open>b\<close> and white otherwise (also when the field is
  missing); a third field that is missing or has none of the letters K, Q, k, q gives four
  false flags. Trailing fields never cause an error: the input fails exactly when its
  first field alone fails.
\<close>

theorem decode_defaults:
  "(\<forall>d. fenToPosObj s = Inr d \<longrightarrow>
      (r_turn d = B \<longleftrightarrow> field (js_split (CHR '' '') s) 1 = Some ''b'') \<and>
      (r_turn d = W \<longleftrightarrow> field (js_split (CHR '' '') s) 1 \<noteq> Some ''b'') \<and>
      ((\<forall>cs. field (js_split (CHR '' '') s) 2 = Some cs \<longrightarrow> set cs \<inter> set ''KQkq'' = {})
         \<longrightarrow> r_castle d = no_rights)) \<and>
   ((\<exists>e. fenToPosObj s = Inl e) \<longleftrightarrow> (\<exists>e. fenToPosObj (hd (js_split (CHR '' '') s)) = Inl e))"
proof -
  let ?fs = "js_split (CHR '' '') s"
  have a: "\<forall>d. fenToPosObj s = Inr d \<longrightarrow>
      (r_turn d = B \<longleftrightarrow> field ?fs 1 = Some ''b'') \<and>
      (r_turn d = W \<longleftrightarrow> field ?fs 1 \<noteq> Some ''b'') \<and>
      ((\<forall>cs. field ?fs 2 = Some cs \<longrightarrow> set cs \<inter> set ''KQkq'' = {}) \<longrightarrow> r_castle d = no_rights)"
    by (cases "field ?fs 2")
      (auto simp: fenToPosObj_unfold str_includes_def no_rights_def split: sum.splits)
  have b: "(\<exists>e. fenToPosObj s = Inl e) \<longleftrightarrow> (\<exists>e. fenToPosObj (hd ?fs) = Inl e)"
    by (simp add: fenToPosObj_unfold[of s] fenToPosObj_unfold[of "hd ?fs"] js_split_hd_idem
        split: sum.splits)
  from a b show ?thesis by blast
qed

theorem decode_defaults_witness:
  "fenToPosObj ''8/8/8/8/8/8/8/8 b'' = Inr \<lparr>r_pos = Map.empty, r_turn = B, r_castle = no_rights\<rparr> \<and>
   field (js_split (CHR '' '') ''8/8/8/8/8/8/8/8 b'') 1 = Some ''b'' \<and>
   field (js_split (CHR '' '') ''8/8/8/8/8/8/8/8 b'') 2 = None \<and>
   \<not> (\<exists>e. fenToPosObj ''8/8/8/8/8/8/8/8 b'' = Inl e)"
proof -
  have e: "fenToPosObj ''8/8/8/8/8/8/8/8 b'' = Inr \<lparr>r_pos = Map.empty, r_turn = B, r_castle = no_rights\<rparr>"
    by (simp add: fenToPosObj_def field_def is_digit_def str_includes_def no_rights_def)
  have h: "hd (js_split (CHR '' '') ''8/8/8/8/8/8/8/8 b'') = ''8/8/8/8/8/8/8/8''" by simp
  show ?thesis using decode_defaults[of "''8/8/8/8/8/8/8/8 b''"] e decode_empty
    unfolding h by (simp add: field_def)
qed

text \<open>
  C9. Tail fields of the encoded string: for every position accepted for serialization
  the string has six space-separated fields; the third is the letters of the rights that
  are set, in the order K, Q, k, q, or \<open>"-"\<close> when none is set; the fifth is \<open>"0"\<close> and the
  sixth is \<open>"1"\<close>.
\<close>

theorem encoded_tail_fields:
  assumes "editor_position obj" and "count_piece obj ''wK'' = 1" and "count_piece obj ''bK'' = 1"
    and "\<not> pawn_on_rank obj 1" and "\<not> pawn_on_rank obj 8"
  shows "\<exists>f pl ep. posObjToFen inherited obj t c = \<lparr>fen = Some f, error = None\<rparr> \<and>
           js_split (CHR '' '') f =
             [pl, turn_str t, (if rights_letters c = [] then ''-'' else rights_letters c),
              ep, ''0'', ''1'']"
proof -
  from posObjToFen_accepts[OF assms, of inherited t c]
  obtain pl where pl: "CHR '' '' \<notin> set pl"
    and enc: "posObjToFen inherited obj t c =
             \<lparr>fen = Some (pl @ '' '' @ turn_str t @ '' '' @ castle_field c @ '' '' @
                           autoDetectEnPassant obj t @ '' 0 1''), error = None\<rparr>" by blast
  let ?ep = "autoDetectEnPassant obj t"
  let ?f = "pl @ '' '' @ turn_str t @ '' '' @ castle_field c @ '' '' @ ?ep @ '' 0 1''"
  have "js_split (CHR '' '') ?f = [pl, turn_str t, castle_field c, ?ep, ''0'', ''1'']"
    using js_split_append[OF pl, of "turn_str t @ '' '' @ castle_field c @ '' '' @ ?ep @ '' 0 1''"]
      js_split_append[OF turn_str_no_space, of t "castle_field c @ '' '' @ ?ep @ '' 0 1''"]
      js_split_append[OF castle_field_no_space, of c "?ep @ '' 0 1''"]
      js_split_append[OF autoDetect_no_space, of obj t "''0 1''"]
    by simp
  with enc show ?thesis unfolding castle_field_rights by blast
qed

theorem encoded_tail_fields_witness:
  "editor_position kings_only \<and> count_piece kings_only ''wK'' = 1 \<and>
   count_piece kings_only ''bK'' = 1 \<and> \<not> pawn_on_rank kings_only 1 \<and> \<not> pawn_on_rank kings_only 8 \<and>
   (\<exists>f pl ep. posObjToFen v8_inherited kings_only W no_rights = \<lparr>fen = Some f, error = None\<rparr> \<and>
       js_split (CHR '' '') f = [pl, ''w'', ''-'', ep, ''0'', ''1''])"
proof -
  have r: "rights_letters no_rights = []" by (simp add: rights_letters_def no_rights_def)
  show ?thesis
    using encoded_tail_fields[OF kings_only_editor kings_only_facts, of v8_inherited W no_rights]
      kings_only_editor kings_only_facts by (simp add: r)
qed

section \<open>Properties of the bot\<close>

lemma VAL_bound: "0 \<le> VAL p \<and> VAL p \<le> 900"
  by (cases p) simp_all

lemma score_row_bound: "\<bar>score_row cells s - s\<bar> \<le> 900 * int (length cells)"
proof (induction cells arbitrary: s)
  case Nil
  then show ?case by simp
next
  case (Cons x cells)
  show ?case
  proof (cases x)
    case None
    then show ?thesis using Cons[of s] by simp
  next
    case (Some c)
    let ?d = "if cell_color c = W then VAL (cell_type c) else - VAL (cell_type c)"
    have "\<bar>?d\<bar> \<le> 900" using VAL_bound[of "cell_type c"] by auto
    moreover have "\<bar>score_row cells (s + ?d) - (s + ?d)\<bar> \<le> 900 * int (length cells)"
      by (rule Cons)
    ultimately show ?thesis using Some by (simp add: Let_def)
  qed
qed

lemma score_rows_bound:
  "\<bar>score_rows rows s - s\<bar> \<le> 900 * int (sum_list (map length rows))"
proof (induction rows arbitrary: s)
  case Nil
  then show ?case by simp
next
  case (Cons row rows)
  have "\<bar>score_rows rows (score_row row s) - score_row row s\<bar> \<le> 900 * int (sum_list (map length rows))"
    by (rule Cons)
  moreover have "\<bar>score_row row s - s\<bar> \<le> 900 * int (length row)" by (rule score_row_bound)
  ultimately show ?case by simp
qed

lemma sum_list_const: "\<forall>x \<in> set xs. f x = (k::nat) \<Longrightarrow> sum_list (map f xs) = k * length xs"
  by (induction xs) simp_all

lemma materialScore_bound:
  assumes "board_8x8 b"
  shows "\<bar>materialScore b\<bar> \<le> 57600"
proof -
  have "sum_list (map length b) = 64"
    using assms sum_list_const[of b length 8] by (simp add: board_8x8_def)
  then show ?thesis using score_rows_bound[of b 0] by (simp add: materialScore_def)
qed

lemma shuffle_props:
  assumes "\<forall>i. rnd i \<le> i" and "n < length ms"
  shows "set (shuffle rnd n ms) = set ms \<and> length (shuffle rnd n ms) = length ms"
  using assms(2)
proof (induction n arbitrary: ms)
  case 0
  then show ?case by simp
next
  case (Suc n)
  let ?ms = "ms[Suc n := ms ! rnd (Suc n), rnd (Suc n) := ms ! Suc n]"
  have j: "rnd (Suc n) < length ms" using assms(1) Suc.prems by (meson le_less_trans)
  have "set ?ms = set ms" using set_swap[OF Suc.prems j] by simp
  moreover have "length ?ms = length ms" by simp
  moreover have "n < length ?ms" using Suc.prems by simp
  ultimately show ?case using Suc.IH[of ?ms] by (simp add: Let_def)
qed

lemma best_loop_max:
  assumes "\<forall>m \<in> set ms. \<exists>h1. chess_move A h m = Some h1 \<and> chess_undo A h1 = h"
    and "base = materialScore (chess_board A h)"
  shows "\<exists>r. best_loop A c base ms (h, best, bs) = Inr r \<and>
           ((r = best \<and> (\<forall>m \<in> set ms. delta_of A c h m \<le> bs)) \<or>
            (\<exists>m \<in> set ms. r = Some m \<and> bs < delta_of A c h m \<and>
                (\<forall>m' \<in> set ms. delta_of A c h m' \<le> delta_of A c h m)))"
  using assms(1)
proof (induction ms arbitrary: best bs)
  case Nil
  then show ?case by simp
next
  case (Cons m ms)
  from Cons.prems obtain h1 where h1: "chess_move A h m = Some h1" "chess_undo A h1 = h" by auto
  have rest: "\<forall>m \<in> set ms. \<exists>h1. chess_move A h m = Some h1 \<and> chess_undo A h1 = h"
    using Cons.prems by simp
  have d: "delta_of A c h m = materialScore (chess_board A h1) * orient c - base * orient c"
    using h1 assms(2) by (simp add: delta_of_def mult.commute)
  show ?case
  proof (cases "delta_of A c h m > bs")
    case True
    from Cons.IH[OF rest, of "Some m" "delta_of A c h m"]
    obtain r where r: "best_loop A c base ms (h, Some m, delta_of A c h m) = Inr r"
      "(r = Some m \<and> (\<forall>m' \<in> set ms. delta_of A c h m' \<le> delta_of A c h m)) \<or>
       (\<exists>m2 \<in> set ms. r = Some m2 \<and> delta_of A c h m < delta_of A c h m2 \<and>
                (\<forall>m' \<in> set ms. delta_of A c h m' \<le> delta_of A c h m2))"
      by blast
    have e: "best_loop A c base (m # ms) (h, best, bs) = Inr r"
      using h1 True r(1) d by (simp add: Let_def)
    from r(2) True have "\<exists>m2 \<in> set (m # ms). r = Some m2 \<and> bs < delta_of A c h m2 \<and>
                (\<forall>m' \<in> set (m # ms). delta_of A c h m' \<le> delta_of A c h m2)"
      by (elim disjE) (auto intro: less_imp_le less_trans)
    with e show ?thesis by blast
  next
    case False
    from Cons.IH[OF rest, of best bs]
    obtain r where r: "best_loop A c base ms (h, best, bs) = Inr r"
      "(r = best \<and> (\<forall>m' \<in> set ms. delta_of A c h m' \<le> bs)) \<or>
       (\<exists>m2 \<in> set ms. r = Some m2 \<and> bs < delta_of A c h m2 \<and>
                (\<forall>m' \<in> set ms. delta_of A c h m' \<le> delta_of A c h m2))"
      by blast
    have e: "best_loop A c base (m # ms) (h, best, bs) = Inr r"
      using h1 False r(1) d by (simp add: Let_def)
    from r(2) False have "(r = best \<and> (\<forall>m' \<in> set (m # ms). delta_of A c h m' \<le> bs)) \<or>
       (\<exists>m2 \<in> set (m # ms). r = Some m2 \<and> bs < delta_of A c h m2 \<and>
                (\<forall>m' \<in> set (m # ms). delta_of A c h m' \<le> delta_of A c h m2))"
      by (elim disjE) (auto intro: order_trans)
    with e show ?thesis by blast
  qed
qed

lemma VAL_worth: "VAL k = piece_worth k"
  by (cases k) (simp_all add: piece_worth_def)

lemma score_row_worth: "score_row cells s = s + sum_list (map square_worth cells)"
proof (induction cells arbitrary: s)
  case Nil
  then show ?case by simp
next
  case (Cons x cells)
  show ?case
  proof (cases x)
    case None
    then show ?thesis using Cons by (simp add: square_worth_def)
  next
    case (Some c)
    then show ?thesis using Cons
      by (cases "cell_color c") (simp_all add: square_worth_def VAL_worth Let_def)
  qed
qed

lemma score_rows_worth: "score_rows rows s = s + sum_list (map square_worth (concat rows))"
  by (induction rows arbitrary: s) (simp_all add: score_row_worth)

lemma materialScore_material: "materialScore b = material b"
  by (simp add: materialScore_def material_def score_rows_worth)

lemma orient_oriented: "x * orient c = oriented_for c x" "orient c * x = oriented_for c x"
  by (cases c; simp add: orient_def oriented_for_def)+

lemma delta_of_material: "delta_of A c h m = material_delta A c h m"
  by (simp add: delta_of_def material_delta_def materialScore_material orient_oriented
      split: option.splits)

text \<open>
  C5. Move selection: when the oracle loads the string, accepts and undoes its legal moves
  and shows 8 by 8 boards, \<open>pickBotMove\<close> returns null exactly when the legal-move list is
  empty, and otherwise a move of that list whose material delta (pawn 100, knight 320,
  bishop 330, rook 500, queen 900, king 0; score after the move minus score before, both
  oriented for the colour) is maximal among the legal moves; so it never picks a negative
  delta when another move has a delta of zero or more.
\<close>

theorem bot_picks_max_delta:
  assumes "chess_load A fen_str = Some h"
    and "moves_undoable A h"
    and "\<forall>h1. board_8x8 (chess_board A h1)"
    and "\<forall>i. rnd i \<le> i"
  shows "\<exists>r. pickBotMove A rnd fen_str c = Inr r \<and>
           (r = None \<longleftrightarrow> chess_moves A h = []) \<and>
           (\<forall>m. r = Some m \<longrightarrow>
                m \<in> set (chess_moves A h) \<and>
                (\<forall>m' \<in> set (chess_moves A h). material_delta A c h m' \<le> material_delta A c h m) \<and>
                (\<forall>m' \<in> set (chess_moves A h).
                    0 \<le> material_delta A c h m' \<longrightarrow> 0 \<le> material_delta A c h m))"
proof (cases "chess_moves A h = []")
  case True
  then show ?thesis using assms(1) by (simp add: pickBotMove_def)
next
  case False
  let ?ms = "shuffle rnd (length (chess_moves A h) - 1) (chess_moves A h)"
  have sh: "set ?ms = set (chess_moves A h)"
    using shuffle_props[OF assms(4), of "length (chess_moves A h) - 1" "chess_moves A h"] False
    by simp
  have und: "\<forall>m \<in> set ?ms. \<exists>h1. chess_move A h m = Some h1 \<and> chess_undo A h1 = h"
    using assms(2) unfolding sh moves_undoable_def .
  from best_loop_max[OF und refl, of c None "- 1000000000"]
  obtain r where r: "best_loop A c (materialScore (chess_board A h)) ?ms (h, None, - 1000000000) = Inr r"
    and alt: "(r = None \<and> (\<forall>m \<in> set ?ms. material_delta A c h m \<le> - 1000000000)) \<or>
       (\<exists>m \<in> set ?ms. r = Some m \<and> - 1000000000 < material_delta A c h m \<and>
                (\<forall>m' \<in> set ?ms. material_delta A c h m' \<le> material_delta A c h m))"
    unfolding delta_of_material by blast
  have low: "- 1000000000 < material_delta A c h m" if "m \<in> set (chess_moves A h)" for m
  proof -
    from that assms(2) obtain h1 where h1: "chess_move A h m = Some h1"
      by (auto simp: moves_undoable_def)
    have "\<bar>materialScore (chess_board A h1)\<bar> \<le> 57600" "\<bar>materialScore (chess_board A h)\<bar> \<le> 57600"
      using assms(3) by (simp_all add: materialScore_bound)
    then have "- 1000000000 < delta_of A c h m" using h1 by (auto simp: delta_of_def orient_def)
    then show ?thesis by (simp add: delta_of_material)
  qed
  from False obtain m0 where m0: "m0 \<in> set (chess_moves A h)" by (cases "chess_moves A h") auto
  have "\<not> (\<forall>m \<in> set ?ms. material_delta A c h m \<le> - 1000000000)"
    using low[OF m0] m0 unfolding sh by (auto simp: not_le intro!: bexI[of _ m0])
  with alt obtain m where m: "m \<in> set (chess_moves A h)" "r = Some m"
    "\<forall>m' \<in> set (chess_moves A h). material_delta A c h m' \<le> material_delta A c h m"
    unfolding sh by blast
  have "pickBotMove A rnd fen_str c = Inr r"
    using assms(1) False r by (simp add: pickBotMove_def Let_def)
  moreover have "\<forall>m' \<in> set (chess_moves A h).
      0 \<le> material_delta A c h m' \<longrightarrow> 0 \<le> material_delta A c h m"
    using m(3) by (meson order_trans)
  ultimately show ?thesis using m False by auto
qed

theorem bot_picks_max_delta_witness:
  "chess_load small_oracle ''3k4/8/8/8/8/8/8/3K4 w - - 0 1'' = Some 0 \<and>
   moves_undoable small_oracle 0 \<and>
   (\<forall>h1. board_8x8 (chess_board small_oracle h1)) \<and>
   chess_moves small_oracle 0 = [1, 2, 3] \<and>
   (\<exists>r. pickBotMove small_oracle (\<lambda>i. 0) ''3k4/8/8/8/8/8/8/3K4 w - - 0 1'' B = Inr r \<and>
        (r = None \<longleftrightarrow> chess_moves small_oracle 0 = []) \<and>
        (\<forall>m. r = Some m \<longrightarrow>
             m \<in> set (chess_moves small_oracle 0) \<and>
             (\<forall>m' \<in> set (chess_moves small_oracle 0).
                 material_delta small_oracle B 0 m' \<le> material_delta small_oracle B 0 m) \<and>
             (\<forall>m' \<in> set (chess_moves small_oracle 0).
                 0 \<le> material_delta small_oracle B 0 m' \<longrightarrow> 0 \<le> material_delta small_oracle B 0 m))) \<and>
   pickBotMove small_oracle (\<lambda>i. 0) ''3k4/8/8/8/8/8/8/3K4 w - - 0 1'' B = Inr (Some 3) \<and>
   material_delta small_oracle B 0 1 = - 100 \<and> material_delta small_oracle B 0 2 = 0 \<and>
   material_delta small_oracle B 0 3 = 900 \<and>
   (\<exists>r. pickBotMove small_oracle (\<lambda>i. i) ''3k4/8/8/8/8/8/8/3K4 w - - 0 1'' W = Inr r \<and>
        (r = None \<longleftrightarrow> chess_moves small_oracle 0 = []) \<and>
        (\<forall>m. r = Some m \<longrightarrow>
             m \<in> set (chess_moves small_oracle 0) \<and>
             (\<forall>m' \<in> set (chess_moves small_oracle 0).
                 material_delta small_oracle W 0 m' \<le> material_delta small_oracle W 0 m) \<and>
             (\<forall>m' \<in> set (chess_moves small_oracle 0).
                 0 \<le> material_delta small_oracle W 0 m' \<longrightarrow> 0 \<le> material_delta small_oracle W 0 m))) \<and>
   pickBotMove small_oracle (\<lambda>i. i) ''3k4/8/8/8/8/8/8/3K4 w - - 0 1'' W = Inr (Some 1) \<and>
   material_delta small_oracle W 0 1 = 100 \<and> material_delta small_oracle W 0 2 = 0 \<and>
   material_delta small_oracle W 0 3 = - 900"
proof -
  have l: "chess_load small_oracle ''3k4/8/8/8/8/8/8/3K4 w - - 0 1'' = Some 0"
    by (simp add: small_oracle_def)
  have u: "moves_undoable small_oracle 0" by (simp add: moves_undoable_def small_oracle_def)
  have b: "\<forall>h1. board_8x8 (chess_board small_oracle h1)"
    by (simp add: small_oracle_def board_8x8_def both_board_def queen_board_def pawn_board_def)
  have ms: "chess_moves small_oracle 0 = [1, 2, 3]" by (simp add: small_oracle_def)
  have r0: "\<forall>i. (\<lambda>i. 0::nat) i \<le> i" by simp
  have r1: "\<forall>i. (\<lambda>i::nat. i) i \<le> i" by simp
  have dB: "material_delta small_oracle B 0 1 = - 100" "material_delta small_oracle B 0 2 = 0"
    "material_delta small_oracle B 0 3 = 900" by code_simp+
  have dW: "material_delta small_oracle W 0 1 = 100" "material_delta small_oracle W 0 2 = 0"
    "material_delta small_oracle W 0 3 = - 900" by code_simp+
  have eB: "pickBotMove small_oracle (\<lambda>i. 0) ''3k4/8/8/8/8/8/8/3K4 w - - 0 1'' B = Inr (Some 3)"
    by code_simp
  have eW: "pickBotMove small_oracle (\<lambda>i. i) ''3k4/8/8/8/8/8/8/3K4 w - - 0 1'' W = Inr (Some 1)"
    by code_simp
  note exB = bot_picks_max_delta[OF l u b r0, of B]
  note exW = bot_picks_max_delta[OF l u b r1, of W]
  from l u b ms exB eB dB exW eW dW show ?thesis by blast
qed

section \<open>Properties of the move handlers\<close>

text \<open>
  C8. Synchronization idempotence: delivering the same move message twice to the handler
  of pages/index.tsx leaves the same state (exchange string and oracle position) as
  delivering it once; a payload whose string the oracle does not load leaves the state
  unchanged.
\<close>

theorem move_message_idempotent:
  "on_move A (on_move A s p) p = on_move A s p \<and>
   (\<forall>rf. p = Some rf \<and> chess_load A rf = None \<longrightarrow> on_move A s p = s)"
  by (auto simp: on_move_def split: option.splits)

theorem move_message_idempotent_witness:
  "chess_load small_oracle ''not a position'' = None \<and>
   on_move small_oracle start_page (Some ''not a position'') = start_page \<and>
   on_move small_oracle (on_move small_oracle start_page (Some ''8/8/8/8/8/8/8/8 w - - 0 1''))
     (Some ''8/8/8/8/8/8/8/8 w - - 0 1'') =
   \<lparr>page_fen = ''8/8/8/8/8/8/8/8 w - - 0 1'', page_chessRef = 0\<rparr>"
proof -
  have l: "chess_load small_oracle ''not a position'' = None" by (simp add: small_oracle_def)
  have o: "on_move small_oracle start_page (Some ''8/8/8/8/8/8/8/8 w - - 0 1'') =
             \<lparr>page_fen = ''8/8/8/8/8/8/8/8 w - - 0 1'', page_chessRef = 0\<rparr>"
    by (simp add: on_move_def small_oracle_def start_page_def)
  show ?thesis
    using move_message_idempotent[of small_oracle start_page "Some ''not a position''"]
      move_message_idempotent[of small_oracle start_page "Some ''8/8/8/8/8/8/8/8 w - - 0 1''"] l o
    by simp
qed

lemma js_join_split: "js_join c (js_split c s) = s"
proof (induction s)
  case Nil
  then show ?case by simp
next
  case (Cons x xs)
  obtain w ws where sp: "js_split c xs = w # ws"
    using js_split_nonempty[of c xs] by (cases "js_split c xs") auto
  show ?case using Cons sp by (cases ws) auto
qed

lemma js_split_join:
  "xs \<noteq> [] \<Longrightarrow> \<forall>x \<in> set xs. c \<notin> set x \<Longrightarrow> js_split c (js_join c xs) = xs"
proof (induction c xs rule: js_join.induct)
  case (1 c)
  then show ?case by simp
next
  case (2 c x)
  then show ?case by (simp add: js_split_no_sep)
next
  case (3 c x y ys)
  then show ?case using js_split_append[of c x "js_join c (y # ys)"] by simp
qed

lemma set_js_join_hd: "set x \<subseteq> set (js_join c (x # xs))"
  by (cases xs) auto

lemma dropWhile_keeps: "x \<in> set s \<Longrightarrow> \<not> P x \<Longrightarrow> x \<in> set (dropWhile P s)"
  by (induction s) auto

lemma js_trim_nonempty:
  assumes "x \<in> set s" and "\<not> is_space x"
  shows "js_trim s \<noteq> []"
proof -
  have "x \<in> set (rev (dropWhile is_space s))" using assms by (simp add: dropWhile_keeps)
  then have "x \<in> set (dropWhile is_space (rev (dropWhile is_space s)))"
    using assms(2) by (rule dropWhile_keeps)
  then have "dropWhile is_space (rev (dropWhile is_space s)) \<noteq> []"
    by (metis empty_iff empty_set)
  then show ?thesis unfolding js_trim_def rev_is_Nil_conv .
qed

lemma chunk_loop_entries:
  assumes "code_entries entries"
  shows "chunk_loop (map (\<lambda>(sq, p). p @ '':'' @ sq) entries) obj = obj ++ map_of entries"
  using assms
proof (induction entries arbitrary: obj)
  case Nil
  then show ?case by simp
next
  case (Cons e entries)
  obtain sq p where e: "e = (sq, p)" by (cases e)
  from Cons.prems have ce: "code_entries entries"
    and w: "sq \<noteq> []" "p \<noteq> []" "sq \<noteq> ''__proto__''" "CHR '':'' \<notin> set sq" "CHR '':'' \<notin> set p"
    and fresh: "sq \<notin> fst ` set entries"
    by (auto simp: code_entries_def e)
  have sp: "js_split (CHR '':'') (p @ CHR '':'' # sq) = [p, sq]"
    using js_split_append[OF w(5), of sq] js_split_no_sep[OF w(4)] by simp
  have none: "map_of entries sq = None" using fresh by (simp add: map_of_eq_None_iff)
  have "chunk_loop (map (\<lambda>(sq, p). p @ '':'' @ sq) (e # entries)) obj
      = chunk_loop (map (\<lambda>(sq, p). p @ '':'' @ sq) entries) (obj(sq \<mapsto> p))"
    using w by (simp add: e sp field_def assign_def Let_def)
  also have "\<dots> = (obj(sq \<mapsto> p)) ++ map_of entries" by (rule Cons.IH[OF ce])
  also have "\<dots> = obj ++ map_of (e # entries)"
    using none by (auto simp: e map_add_def fun_eq_iff split: option.splits)
  finally show ?case .
qed

lemma exportFEN_split:
  assumes "sb_mode s0 = Sandbox"
  shows "js_split (CHR '':'') (exportFEN s0 entries) =
           ''SANDBOX'' # turn_str (sb_turn s0) #
           js_split (CHR '':'') (js_join (CHR '','') (map (\<lambda>(sq, p). p @ '':'' @ sq) entries))"
proof -
  have a: "CHR '':'' \<notin> set ''SANDBOX''" by simp
  have b: "CHR '':'' \<notin> set (turn_str (sb_turn s0))" by (cases "sb_turn s0") simp_all
  show ?thesis
    using assms js_split_append[OF a] js_split_append[OF b]
    by (simp add: exportFEN_def Let_def)
qed

lemma importFENText_exportFEN:
  assumes "sb_mode s0 = Sandbox" and "code_entries entries"
  shows "importFENText s (exportFEN s0 entries) =
           s\<lparr>sb_mode := Sandbox, sb_sandboxPos := map_of entries, sb_turn := sb_turn s0\<rparr>"
proof -
  let ?enc = "\<lambda>(sq, p). p @ '':'' @ sq"
  let ?body = "js_join (CHR '','') (map ?enc entries)"
  have st: "startsWith (exportFEN s0 entries) ''SANDBOX:''"
    using assms(1) by (simp add: exportFEN_def startsWith_def Let_def)
  have t: "(if turn_str (sb_turn s0) = ''b'' then B else W) = sb_turn s0"
    by (cases "sb_turn s0") simp_all
  have rest: "js_join (CHR '':'') (drop 2 (js_split (CHR '':'') (exportFEN s0 entries))) = ?body"
    by (simp add: exportFEN_split[OF assms(1)] js_join_split)
  have obj: "(if js_trim ?body \<noteq> [] then chunk_loop (js_split (CHR '','') ?body) Map.empty
              else Map.empty) = map_of entries"
  proof (cases entries)
    case Nil
    then show ?thesis by (simp add: js_trim_def)
  next
    case (Cons e es)
    obtain sq p where e: "e = (sq, p)" by (cases e)
    have "CHR '':'' \<in> set (?enc e)" by (simp add: e)
    then have "CHR '':'' \<in> set ?body" using set_js_join_hd[of "?enc e" "CHR '',''" "map ?enc es"]
      unfolding Cons by auto
    moreover have "\<not> is_space (CHR '':'')" by (simp add: is_space_def)
    ultimately have tr: "js_trim ?body \<noteq> []" by (rule js_trim_nonempty)
    have "\<forall>x \<in> set (map ?enc entries). CHR '','' \<notin> set x"
      using assms(2) by (auto simp: code_entries_def)
    moreover have "map ?enc entries \<noteq> []" using Cons by simp
    ultimately have "js_split (CHR '','') ?body = map ?enc entries" by (simp add: js_split_join)
    then show ?thesis using tr chunk_loop_entries[OF assms(2), of Map.empty] by simp
  qed
  show ?thesis
    unfolding importFENText_def Let_def rest obj
    using st t by (simp add: exportFEN_split[OF assms(1)] field_def)
qed

text \<open>
  C6. Freeform ingestion. The handler of pages/index.tsx has no branch for sandbox codes:
  it hands the string to the oracle, and an oracle that does not load it makes the handler
  drop the message, so the state is not replaced.
\<close>

theorem freeform_dropped_counterexample:
  "startsWith ''SANDBOX:b:wK:e1,bP:a2'' ''SANDBOX:'' \<and>
   chess_load small_oracle ''SANDBOX:b:wK:e1,bP:a2'' = None \<and>
   on_move small_oracle start_page (Some ''SANDBOX:b:wK:e1,bP:a2'') = start_page"
  by (simp add: startsWith_def small_oracle_def on_move_def)

text \<open>
  C6, as the code has it. In the page component with sandbox codes, a move message whose
  string starts with \<open>SANDBOX:\<close> is taken without the oracle (any oracle gives the same
  state): the mode becomes sandbox; the turn becomes black when the second field between
  colons is \<open>b\<close> and white otherwise; the piece map is replaced by one that the string alone
  determines, whatever the map was before; the exchange string and the oracle position stay
  as they were. When the string is the code that \<open>exportFEN\<close> builds for a sandbox position,
  the piece map and the turn become those of that position. The handler of pages/index.tsx
  hands every string to the oracle and keeps its state when the oracle does not load it.
\<close>

theorem freeform_ingest:
  assumes "startsWith rf ''SANDBOX:''"
  shows "on_move_sandbox A s (Some rf) = on_move_sandbox A' s (Some rf) \<and>
         sb_mode (on_move_sandbox A s (Some rf)) = Sandbox \<and>
         sb_turn (on_move_sandbox A s (Some rf)) =
           (if field (js_split (CHR '':'') rf) 1 = Some ''b'' then B else W) \<and>
         sb_sandboxPos (on_move_sandbox A s (Some rf)) =
           sb_sandboxPos (on_move_sandbox A s' (Some rf)) \<and>
         sb_fen (on_move_sandbox A s (Some rf)) = sb_fen s \<and>
         sb_chessRef (on_move_sandbox A s (Some rf)) = sb_chessRef s \<and>
         (\<forall>s0 entries.
             rf = exportFEN s0 entries \<and> sb_mode s0 = Sandbox \<and> code_entries entries \<and>
             map_of entries = sb_sandboxPos s0 \<longrightarrow>
             sb_sandboxPos (on_move_sandbox A s (Some rf)) = sb_sandboxPos s0 \<and>
             sb_turn (on_move_sandbox A s (Some rf)) = sb_turn s0) \<and>
         on_move A2 p (Some rf) =
           (case chess_load A2 rf of None \<Rightarrow> p
            | Some c \<Rightarrow> p\<lparr>page_chessRef := c, page_fen := rf\<rparr>)"
proof -
  have h: "on_move_sandbox X s1 (Some rf) = importFENText s1 rf" for X :: "('a, 'x) chess_js" and s1
    using assms by (simp add: on_move_sandbox_def)
  have a: "on_move_sandbox A s (Some rf) = on_move_sandbox A' s (Some rf)"
    using assms by (simp add: on_move_sandbox_def)
  have b: "sb_mode (importFENText s rf) = Sandbox"
    "sb_turn (importFENText s rf) = (if field (js_split (CHR '':'') rf) 1 = Some ''b'' then B else W)"
    "sb_sandboxPos (importFENText s rf) = sb_sandboxPos (importFENText s' rf)"
    "sb_fen (importFENText s rf) = sb_fen s" "sb_chessRef (importFENText s rf) = sb_chessRef s"
    using assms by (simp_all add: importFENText_def Let_def)
  have c: "sb_sandboxPos (importFENText s rf) = sb_sandboxPos s0 \<and>
           sb_turn (importFENText s rf) = sb_turn s0"
    if "rf = exportFEN s0 entries" "sb_mode s0 = Sandbox" "code_entries entries"
      "map_of entries = sb_sandboxPos s0" for s0 :: "'z sandbox_page" and entries
    using that by (simp add: importFENText_exportFEN)
  have d: "on_move A2 p (Some rf) =
           (case chess_load A2 rf of None \<Rightarrow> p
            | Some c \<Rightarrow> p\<lparr>page_chessRef := c, page_fen := rf\<rparr>)"
    by (simp add: on_move_def)
  show ?thesis unfolding h using a b c d unfolding h by blast
qed

theorem freeform_ingest_witness:
  "startsWith ''SANDBOX:w:wK:e1,bP:a2'' ''SANDBOX:'' \<and>
   exportFEN sender_page [(''e1'', ''wK''), (''a2'', ''bP'')] = ''SANDBOX:w:wK:e1,bP:a2'' \<and>
   sb_mode sender_page = Sandbox \<and> code_entries [(''e1'', ''wK''), (''a2'', ''bP'')] \<and>
   sb_turn sender_page = W \<and> sb_turn start_sandbox_page = B \<and>
   sb_mode (on_move_sandbox small_oracle start_sandbox_page (Some ''SANDBOX:w:wK:e1,bP:a2'')) = Sandbox \<and>
   sb_turn (on_move_sandbox small_oracle start_sandbox_page (Some ''SANDBOX:w:wK:e1,bP:a2'')) = W \<and>
   sb_sandboxPos (on_move_sandbox small_oracle start_sandbox_page (Some ''SANDBOX:w:wK:e1,bP:a2'')) =
     map_of [(''e1'', ''wK''), (''a2'', ''bP'')] \<and>
   sb_fen (on_move_sandbox small_oracle start_sandbox_page (Some ''SANDBOX:w:wK:e1,bP:a2'')) =
     ''3k4/8/8/8/8/8/8/3K4 w - - 0 1'' \<and>
   sb_chessRef (on_move_sandbox small_oracle start_sandbox_page (Some ''SANDBOX:w:wK:e1,bP:a2'')) = 7"
proof -
  let ?rf = "''SANDBOX:w:wK:e1,bP:a2''"
  let ?es = "[(''e1'', ''wK''), (''a2'', ''bP'')]"
  have h: "startsWith ?rf ''SANDBOX:''" by (simp add: startsWith_def)
  have x: "exportFEN sender_page ?es = ?rf" by (simp add: exportFEN_def sender_page_def)
  have m: "sb_mode sender_page = Sandbox" "sb_turn sender_page = W"
    "map_of ?es = sb_sandboxPos sender_page" by (simp_all add: sender_page_def)
  have ce: "code_entries ?es" by (simp add: code_entries_def)
  have st: "sb_turn start_sandbox_page = B" "sb_fen start_sandbox_page = ''3k4/8/8/8/8/8/8/3K4 w - - 0 1''"
    "sb_chessRef start_sandbox_page = 7" by (simp_all add: start_sandbox_page_def)
  note th = freeform_ingest[OF h, where A = small_oracle and s = start_sandbox_page]
  from th x m ce
  have r: "sb_sandboxPos (on_move_sandbox small_oracle start_sandbox_page (Some ?rf)) =
             sb_sandboxPos sender_page"
    "sb_turn (on_move_sandbox small_oracle start_sandbox_page (Some ?rf)) = sb_turn sender_page"
    by metis+
  from th have k: "sb_mode (on_move_sandbox small_oracle start_sandbox_page (Some ?rf)) = Sandbox"
    "sb_fen (on_move_sandbox small_oracle start_sandbox_page (Some ?rf)) = sb_fen start_sandbox_page"
    "sb_chessRef (on_move_sandbox small_oracle start_sandbox_page (Some ?rf)) = sb_chessRef start_sandbox_page"
    by blast+
  show ?thesis using h x m ce st r k by simp
qed

end
